theory Spec2Isabelle
  imports Complex_Main "HOL-Library.Sublist"
begin

section \<open>Numbers\<close>

text \<open>
  A JavaScript \<open>number\<close> is modelled as a real: arithmetic is exact, there is no rounding
  and a single zero. Where the source divides by a quantity that may be zero, or
  compares a value that may be \<open>NaN\<close>, the value is a \<open>jsnum\<close>: a real, one of the two
  infinities, or \<open>NaN\<close>, with the outcomes of IEEE 754 for these cases.
\<close>

datatype jsnum = Num real | PosInf | NegInf | NaN

fun js_neg :: "jsnum \<Rightarrow> jsnum" where
  "js_neg (Num a) = Num (- a)"
| "js_neg PosInf = NegInf"
| "js_neg NegInf = PosInf"
| "js_neg NaN = NaN"

fun js_add :: "jsnum \<Rightarrow> jsnum \<Rightarrow> jsnum" where
  "js_add (Num a) (Num b) = Num (a + b)"
| "js_add NaN _ = NaN"
| "js_add _ NaN = NaN"
| "js_add PosInf NegInf = NaN"
| "js_add NegInf PosInf = NaN"
| "js_add PosInf _ = PosInf"
| "js_add _ PosInf = PosInf"
| "js_add NegInf _ = NegInf"
| "js_add _ NegInf = NegInf"

definition js_sub :: "jsnum \<Rightarrow> jsnum \<Rightarrow> jsnum" where
  "js_sub a b = js_add a (js_neg b)"

fun js_mul :: "jsnum \<Rightarrow> jsnum \<Rightarrow> jsnum" where
  "js_mul (Num a) (Num b) = Num (a * b)"
| "js_mul NaN _ = NaN"
| "js_mul _ NaN = NaN"
| "js_mul (Num a) PosInf = (if a = 0 then NaN else if 0 < a then PosInf else NegInf)"
| "js_mul (Num a) NegInf = (if a = 0 then NaN else if 0 < a then NegInf else PosInf)"
| "js_mul PosInf (Num b) = (if b = 0 then NaN else if 0 < b then PosInf else NegInf)"
| "js_mul NegInf (Num b) = (if b = 0 then NaN else if 0 < b then NegInf else PosInf)"
| "js_mul PosInf PosInf = PosInf"
| "js_mul PosInf NegInf = NegInf"
| "js_mul NegInf PosInf = NegInf"
| "js_mul NegInf NegInf = PosInf"

text \<open>Division; a zero divisor is the positive zero.\<close>

fun js_div :: "jsnum \<Rightarrow> jsnum \<Rightarrow> jsnum" where
  "js_div (Num a) (Num b) =
     (if b \<noteq> 0 then Num (a / b)
      else if a = 0 then NaN else if 0 < a then PosInf else NegInf)"
| "js_div NaN _ = NaN"
| "js_div _ NaN = NaN"
| "js_div (Num a) PosInf = Num 0"
| "js_div (Num a) NegInf = Num 0"
| "js_div PosInf (Num b) = (if 0 \<le> b then PosInf else NegInf)"
| "js_div NegInf (Num b) = (if 0 \<le> b then NegInf else PosInf)"
| "js_div _ _ = NaN"

text \<open>The comparison \<open>a < b\<close>: false as soon as one side is \<open>NaN\<close>.\<close>

fun js_lt :: "jsnum \<Rightarrow> jsnum \<Rightarrow> bool" where
  "js_lt (Num a) (Num b) = (a < b)"
| "js_lt NaN _ = False"
| "js_lt _ NaN = False"
| "js_lt _ NegInf = False"
| "js_lt PosInf _ = False"
| "js_lt NegInf _ = True"
| "js_lt _ PosInf = True"

definition js_gt :: "jsnum \<Rightarrow> jsnum \<Rightarrow> bool" where
  "js_gt a b = js_lt b a"

text \<open>\<open>Math.min\<close> and \<open>Math.max\<close> of two arguments: \<open>NaN\<close> if either is.\<close>

fun js_min :: "jsnum \<Rightarrow> jsnum \<Rightarrow> jsnum" where
  "js_min NaN _ = NaN"
| "js_min _ NaN = NaN"
| "js_min a b = (if js_lt b a then b else a)"

fun js_max :: "jsnum \<Rightarrow> jsnum \<Rightarrow> jsnum" where
  "js_max NaN _ = NaN"
| "js_max _ NaN = NaN"
| "js_max a b = (if js_lt a b then b else a)"

section \<open>Easing engine: \<open>cubicBezier\<close>\<close>

definition NEWTON_ITER :: nat where "NEWTON_ITER = 8"
definition NEWTON_EPS :: real where "NEWTON_EPS = 1 / 10 ^ 6"
definition SUBDIV_EPS :: real where "SUBDIV_EPS = 1 / 10 ^ 7"

text \<open>The polynomial coefficients \<open>ax, bx, cx\<close> (and \<open>ay, by, cy\<close>) of the closure.\<close>

definition coef_a :: "real \<Rightarrow> real \<Rightarrow> real" where
  "coef_a p1 p2 = 3 * p1 - 3 * p2 + 1"

definition coef_b :: "real \<Rightarrow> real \<Rightarrow> real" where
  "coef_b p1 p2 = - 6 * p1 + 3 * p2"

definition coef_c :: "real \<Rightarrow> real" where
  "coef_c p1 = 3 * p1"

definition sampleX :: "real \<Rightarrow> real \<Rightarrow> real \<Rightarrow> real" where
  "sampleX x1 x2 t = ((coef_a x1 x2 * t + coef_b x1 x2) * t + coef_c x1) * t"

definition sampleY :: "real \<Rightarrow> real \<Rightarrow> real \<Rightarrow> real" where
  "sampleY y1 y2 t = ((coef_a y1 y2 * t + coef_b y1 y2) * t + coef_c y1) * t"

definition slopeX :: "real \<Rightarrow> real \<Rightarrow> real \<Rightarrow> real" where
  "slopeX x1 x2 t = (3 * coef_a x1 x2 * t + 2 * coef_b x1 x2) * t + coef_c x1"

text \<open>
  The Newton loop of \<open>solveX\<close>; the counter is the number of iterations still allowed
  (\<open>NEWTON_ITER - i\<close>), and \<open>break\<close> returns the current \<open>t\<close>.
\<close>

fun newton :: "real \<Rightarrow> real \<Rightarrow> real \<Rightarrow> nat \<Rightarrow> real \<Rightarrow> real" where
  "newton x1 x2 x 0 t = t"
| "newton x1 x2 x (Suc n) t =
     (let s = slopeX x1 x2 t
      in if \<bar>s\<bar> < NEWTON_EPS then t
         else newton x1 x2 x n (t - (sampleX x1 x2 t - x) / s))"


text \<open>
  One pass of the \<open>while (t0 < t1)\<close> loop, entered with \<open>t0 < t1\<close>: either the loop is
  left with a result (\<open>return t\<close> or \<open>break\<close>), or the next \<open>(t, t0, t1)\<close> is produced.
\<close>

datatype pass = Done real | Next real real real

definition bisect_pass :: "real \<Rightarrow> real \<Rightarrow> real \<Rightarrow> real \<Rightarrow> real \<Rightarrow> real \<Rightarrow> pass" where
  "bisect_pass x1 x2 x t t0 t1 =
     (let xEst = sampleX x1 x2 t
      in if \<bar>xEst - x\<bar> < SUBDIV_EPS then Done t
         else let t0' = (if x > xEst then t else t0);
                  t1' = (if x > xEst then t1 else t);
                  t' = (t0' + t1') / 2
              in if t1' - t0' < SUBDIV_EPS then Done t' else Next t' t0' t1')"

text \<open>The loop itself; \<open>None\<close> stands for a loop that never ends.\<close>

partial_function (option) bisect ::
  "real \<Rightarrow> real \<Rightarrow> real \<Rightarrow> real \<Rightarrow> real \<Rightarrow> real \<Rightarrow> real option" where
  "bisect x1 x2 x t t0 t1 =
     (if t0 < t1
      then (case bisect_pass x1 x2 x t t0 t1 of
              Done r \<Rightarrow> Some r
            | Next t' t0' t1' \<Rightarrow> bisect x1 x2 x t' t0' t1')
      else Some t)"

definition solveX :: "real \<Rightarrow> real \<Rightarrow> real \<Rightarrow> real option" where
  "solveX x1 x2 x = bisect x1 x2 x (newton x1 x2 x NEWTON_ITER x) 0 1"

text \<open>The clamp \<open>Math.min(Math.max(x, 0), 1)\<close> of the returned function.\<close>

definition clamp01 :: "jsnum \<Rightarrow> jsnum" where
  "clamp01 x = js_min (js_max x (Num 0)) (Num 1)"

text \<open>
  The function returned by \<open>cubicBezier(x1, y1, x2, y2)\<close>, applied to \<open>x\<close>. On \<open>NaN\<close>
  every comparison of \<open>solveX\<close> is false: the Newton loop runs its eight iterations on
  \<open>NaN\<close>, the first bisection pass sets \<open>t1 = NaN\<close>, the loop test \<open>t0 < t1\<close> fails, and
  \<open>sampleY(NaN)\<close> is \<open>NaN\<close>.
\<close>

definition cubicBezier :: "real \<Rightarrow> real \<Rightarrow> real \<Rightarrow> real \<Rightarrow> jsnum \<Rightarrow> jsnum option" where
  "cubicBezier x1 y1 x2 y2 x =
     (case clamp01 x of
        Num c \<Rightarrow> map_option (\<lambda>t. Num (sampleY y1 y2 t)) (solveX x1 x2 c)
      | _ \<Rightarrow> Some NaN)"

definition easeCB :: "jsnum \<Rightarrow> jsnum option" where
  "easeCB = cubicBezier (48 / 100) (2 / 10) (5 / 100) (99 / 100)"

definition easeInOut :: "jsnum \<Rightarrow> jsnum option" where
  "easeInOut = cubicBezier (42 / 100) 0 (58 / 100) 1"

section \<open>Geodesy: \<open>sphericalCentroid\<close> and \<open>applyScreenLift\<close>\<close>

text \<open>
  A position is the pair \<open>(p[0], p[1])\<close> of longitude and latitude in degrees, a ring a
  list of positions. The geometry of a feature is a polygon (a list of rings) or, for
  every other \<open>type\<close>, a list of polygons that the source flattens by one level.
\<close>

type_synonym position = "real \<times> real"
type_synonym ring = "position list"

datatype geometry = Polygon "ring list" | MultiPolygon "ring list list"

text \<open>
  A feature: its geometry and its property bag, a dictionary from keys to strings that
  may be absent (\<open>f?.properties ?? {}\<close>).
\<close>

record feature =
  geometry :: geometry
  properties :: "(string \<rightharpoonup> string) option"

fun coords :: "geometry \<Rightarrow> ring list" where
  "coords (Polygon rs) = rs"
| "coords (MultiPolygon ps) = concat ps"

text \<open>
  \<open>Math.atan2(y, x)\<close> on finite arguments, with a single zero: the angle of the point
  \<open>(x, y)\<close> in \<open>(-\<pi>, \<pi>]\<close>, and \<open>0\<close> at the origin.
\<close>

definition atan2 :: "real \<Rightarrow> real \<Rightarrow> real" where
  "atan2 y x =
     (if 0 < x then arctan (y / x)
      else if x < 0 then (if 0 \<le> y then arctan (y / x) + pi else arctan (y / x) - pi)
      else if 0 < y then pi / 2
      else if y < 0 then - (pi / 2)
      else 0)"

definition hypot :: "real \<Rightarrow> real \<Rightarrow> real" where
  "hypot x y = sqrt (x\<^sup>2 + y\<^sup>2)"

text \<open>The body of the inner loop: one vertex is added to the running \<open>(x, y, z, n)\<close>.\<close>

definition add_vertex :: "position \<Rightarrow> real \<times> real \<times> real \<times> nat \<Rightarrow> real \<times> real \<times> real \<times> nat" where
  "add_vertex p acc =
     (case acc of (x, y, z, n) \<Rightarrow>
        let lng = (fst p * pi) / 180;
            lat = (snd p * pi) / 180;
            cl = cos lat
        in (x + cl * cos lng, y + cl * sin lng, z + sin lat, n + 1))"

definition add_ring :: "ring \<Rightarrow> real \<times> real \<times> real \<times> nat \<Rightarrow> real \<times> real \<times> real \<times> nat" where
  "add_ring r acc = fold add_vertex r acc"

definition sphericalCentroid :: "feature \<Rightarrow> real \<times> real" where
  "sphericalCentroid feat =
     (case fold add_ring (coords (geometry feat)) (0, 0, 0, 0) of (x, y, z, n) \<Rightarrow>
        if n = 0 then (0, 0)
        else let x = x / real n; y = y / real n; z = z / real n;
                 hyp = hypot x y;
                 lat = (atan2 z hyp * 180) / pi;
                 lng = (atan2 y x * 180) / pi;
                 lng = (if lng > 180 then lng - 360 else lng);
                 lng = (if lng < - 180 then lng + 360 else lng)
             in (lng, lat))"

definition SCREEN_LIFT_DEG :: real where "SCREEN_LIFT_DEG = 12"

definition applyScreenLift :: "real \<Rightarrow> real \<Rightarrow> real" where
  "applyScreenLift lat0 liftDeg = (let out = lat0 - liftDeg in max (- 85) (min 85 out))"

text \<open>
  The centroid in the words of the specification: every vertex of every ring becomes a
  unit vector, the vectors are averaged over the number of vertices, and the mean is
  turned back into a longitude and a latitude.
\<close>

definition unit_vector :: "position \<Rightarrow> real \<times> real \<times> real" where
  "unit_vector p =
     (cos (snd p * pi / 180) * cos (fst p * pi / 180),
      cos (snd p * pi / 180) * sin (fst p * pi / 180),
      sin (snd p * pi / 180))"



section \<open>Region classifier: \<open>groupId\<close>\<close>

text \<open>
  A JavaScript string is modelled as a \<open>string\<close> whose characters are the code points
  U+0000 to U+00FF (Latin-1). \<open>toLowerCase\<close>, \<open>normalize('NFKD')\<close> and the removal of the
  combining marks U+0300 to U+036F are modelled on all of them; \<open>toUpperCase\<close>, which only
  meets ISO codes, on ASCII. Property values are strings.
\<close>

datatype GroupKey = CAN | USA | GBR | CHN | AUS

record group =
  iso3 :: "string list"
  names :: "string list"

text \<open>\<open>GROUPS\<close>, in the order in which \<open>Object.keys\<close> lists its keys.\<close>

definition GROUPS :: "(GroupKey \<times> group) list" where
  "GROUPS =
     [(CAN, \<lparr>iso3 = [''CAN''], names = [''Canada'']\<rparr>),
      (USA, \<lparr>iso3 = [''USA''],
             names = [''United States of America'', ''United States'', ''USA'']\<rparr>),
      (GBR, \<lparr>iso3 = [''GBR''],
             names = [''United Kingdom'',
                      ''United Kingdom of Great Britain and Northern Ireland'',
                      ''Great Britain'', ''UK'', ''England'', ''Scotland'', ''Wales'',
                      ''Northern Ireland'']\<rparr>),
      (CHN, \<lparr>iso3 = [''CHN''],
             names = [''China'', ''People'' @ [CHR 0x27] @ ''s Republic of China'',
                      ''Peoples Republic of China'']\<rparr>),
      (AUS, \<lparr>iso3 = [''AUS''], names = [''Australia'']\<rparr>)]"

text \<open>
  \<open>toLowerCase\<close> on one character: the letters \<open>A\<close> to \<open>Z\<close> and the capital letters U+00C0
  to U+00DE (the sign U+00D7 is not one) move up by \<open>32\<close>.
\<close>

definition toLowerCase_char :: "char \<Rightarrow> char" where
  "toLowerCase_char c =
     (let n = (of_char c :: nat)
      in if (65 \<le> n \<and> n \<le> 90) \<or> (192 \<le> n \<and> n \<le> 214) \<or> (216 \<le> n \<and> n \<le> 222)
         then char_of (n + 32) else c)"

definition toUpperCase_char :: "char \<Rightarrow> char" where
  "toUpperCase_char c =
     (let n = (of_char c :: nat) in if 97 \<le> n \<and> n \<le> 122 then char_of (n - 32) else c)"

definition toLowerCase :: "string \<Rightarrow> string" where
  "toLowerCase s = map toLowerCase_char s"

definition toUpperCase :: "string \<Rightarrow> string" where
  "toUpperCase s = map toUpperCase_char s"

text \<open>
  \<open>normalize('NFKD')\<close> followed by \<open>replace(/[\u0300-\u036f]/g, '')\<close>, on one character:
  its compatibility decomposition without the combining marks. Two decompositions leave
  Latin-1: the micro sign U+00B5 becomes U+03BC and the fractions hold U+2044. They are
  written as U+00B5 and as \<open>/\<close>, which like them are outside \<open>[a-z0-9]\<close>, the only thing
  the next step looks at.
\<close>

definition nfkd_strip_char :: "char \<Rightarrow> string" where
  "nfkd_strip_char c =
     (let n = (of_char c :: nat)
      in if n = 160 \<or> n = 168 \<or> n = 175 \<or> n = 180 \<or> n = 184 then '' ''
         else if n = 170 then ''a'' else if n = 186 then ''o''
         else if n = 178 then ''2'' else if n = 179 then ''3'' else if n = 185 then ''1''
         else if n = 188 then ''1/4'' else if n = 189 then ''1/2'' else if n = 190 then ''3/4''
         else if 192 \<le> n \<and> n \<le> 197 then ''A'' else if n = 199 then ''C''
         else if 200 \<le> n \<and> n \<le> 203 then ''E'' else if 204 \<le> n \<and> n \<le> 207 then ''I''
         else if n = 209 then ''N'' else if 210 \<le> n \<and> n \<le> 214 then ''O''
         else if 217 \<le> n \<and> n \<le> 220 then ''U'' else if n = 221 then ''Y''
         else if 224 \<le> n \<and> n \<le> 229 then ''a'' else if n = 231 then ''c''
         else if 232 \<le> n \<and> n \<le> 235 then ''e'' else if 236 \<le> n \<and> n \<le> 239 then ''i''
         else if n = 241 then ''n'' else if 242 \<le> n \<and> n \<le> 246 then ''o''
         else if 249 \<le> n \<and> n \<le> 252 then ''u'' else if n = 253 \<or> n = 255 then ''y''
         else [c])"

text \<open>The character class \<open>[a-z0-9]\<close>.\<close>

definition is_alnum :: "char \<Rightarrow> bool" where
  "is_alnum c =
     (let n = (of_char c :: nat) in (97 \<le> n \<and> n \<le> 122) \<or> (48 \<le> n \<and> n \<le> 57))"

text \<open>
  \<open>replace(/[^a-z0-9]+/g, ' ')\<close>: every maximal run of characters outside the class
  becomes one space. The flag tells whether the previous character was in such a run.
\<close>

fun squeeze :: "bool \<Rightarrow> string \<Rightarrow> string" where
  "squeeze in_run [] = []"
| "squeeze in_run (c # cs) =
     (if is_alnum c then c # squeeze False cs
      else if in_run then squeeze True cs
      else CHR '' '' # squeeze True cs)"

text \<open>
  White space and line ends among the characters of the model: tab, line feed, vertical
  tab, form feed, carriage return, space and the no-break space U+00A0.
\<close>

definition is_space :: "char \<Rightarrow> bool" where
  "is_space c = (let n = (of_char c :: nat) in (9 \<le> n \<and> n \<le> 13) \<or> n = 32 \<or> n = 160)"

definition trim :: "string \<Rightarrow> string" where
  "trim s = rev (dropWhile is_space (rev (dropWhile is_space s)))"

definition norm_str :: "string option \<Rightarrow> string" where
  "norm_str s =
     trim (squeeze False
       (concat (map nfkd_strip_char (toLowerCase (case s of None \<Rightarrow> [] | Some v \<Rightarrow> v)))))"

definition props :: "feature \<Rightarrow> (string \<rightharpoonup> string)" where
  "props f = (case properties f of None \<Rightarrow> Map.empty | Some p \<Rightarrow> p)"

text \<open>
  A chain \<open>p.k1 || p.k2 || ... || p.kn\<close>: the first value that is present and not the
  empty string, and otherwise whatever the last operand is.
\<close>

fun first_truthy :: "(string \<rightharpoonup> string) \<Rightarrow> string list \<Rightarrow> string option" where
  "first_truthy p [] = None"
| "first_truthy p [k] = p k"
| "first_truthy p (k # ks) =
     (case p k of
        Some v \<Rightarrow> if v \<noteq> [] then Some v else first_truthy p ks
      | None \<Rightarrow> first_truthy p ks)"

definition getFeatISO3 :: "feature \<Rightarrow> string option" where
  "getFeatISO3 f =
     first_truthy (props f)
       [''ISO_A3'', ''iso_a3'', ''ADM0_A3'', ''adm0_a3'', ''SOV_A3'', ''sov_a3'', ''WB_A3'',
        ''wb_a3'', ''GU_A3'', ''gu_a3'', ''SU_A3'', ''su_a3'', ''A3'', ''a3'']"

definition getFeatName :: "feature \<Rightarrow> string option" where
  "getFeatName f =
     first_truthy (props f)
       [''ADMIN'', ''admin'', ''NAME_LONG'', ''name_long'', ''NAME_EN'', ''name_en'', ''NAME'',
        ''name'', ''SOVEREIGNT'', ''sovereignt'', ''GEOUNIT'', ''geounit'', ''BRK_NAME'',
        ''brk_name'']"

text \<open>
  The first loop of \<open>groupId\<close>: the first group whose ISO list holds \<open>isoU\<close>, the
  upper-cased code that the source calls \<open>iso\<close>.
\<close>

fun iso_loop :: "string \<Rightarrow> (GroupKey \<times> group) list \<Rightarrow> GroupKey option" where
  "iso_loop isoU [] = None"
| "iso_loop isoU (kg # rest) =
     (if isoU \<in> set (iso3 (snd kg)) then Some (fst kg) else iso_loop isoU rest)"

text \<open>The second, nested loop: the first group one of whose names normalises to \<open>nameN\<close>.\<close>

fun name_in :: "string \<Rightarrow> string list \<Rightarrow> bool" where
  "name_in nameN [] = False"
| "name_in nameN (nm # nms) = (if norm_str (Some nm) = nameN then True else name_in nameN nms)"

fun name_loop :: "string \<Rightarrow> (GroupKey \<times> group) list \<Rightarrow> GroupKey option" where
  "name_loop nameN [] = None"
| "name_loop nameN (kg # rest) =
     (if name_in nameN (names (snd kg)) then Some (fst kg) else name_loop nameN rest)"

text \<open>\<open>s.includes(pat)\<close>.\<close>

fun includes_str :: "string \<Rightarrow> string \<Rightarrow> bool" where
  "includes_str [] pat = (pat = [])"
| "includes_str (c # cs) pat = (if prefix pat (c # cs) then True else includes_str cs pat)"

definition groupId :: "feature \<Rightarrow> GroupKey option" where
  "groupId f =
     (let isoU = toUpperCase (case getFeatISO3 f of None \<Rightarrow> [] | Some v \<Rightarrow> v);
          nameN = norm_str (getFeatName f)
      in case iso_loop isoU GROUPS of
           Some key \<Rightarrow> Some key
         | None \<Rightarrow>
             (case name_loop nameN GROUPS of
                Some key \<Rightarrow> Some key
              | None \<Rightarrow>
                  if includes_str nameN ''united kingdom'' \<or> includes_str nameN ''great britain''
                  then Some GBR else None))"

definition isSelectable :: "feature \<Rightarrow> bool" where
  "isSelectable f = (groupId f \<noteq> None)"

text \<open>
  The normalisation in the words of the specification: lowercase, strip diacritics,
  collapse non-alphanumerics to single spaces, trim. Each step is written down on its
  own: the capital letters with their small letters, the letters that carry a grave,
  acute, circumflex, tilde, diaeresis, ring or cedilla with their base letters, a run of
  characters that are neither a letter \<open>a\<close> to \<open>z\<close> nor a digit as one space, and the
  spaces at both ends removed.
\<close>

definition lower_spec :: "char \<Rightarrow> char" where
  "lower_spec c =
     (case map_of
        (zip (''ABCDEFGHIJKLMNOPQRSTUVWXYZ'' @
              [CHR 0xC0, CHR 0xC1, CHR 0xC2, CHR 0xC3, CHR 0xC4, CHR 0xC5, CHR 0xC6, CHR 0xC7,
               CHR 0xC8, CHR 0xC9, CHR 0xCA, CHR 0xCB, CHR 0xCC, CHR 0xCD, CHR 0xCE, CHR 0xCF,
               CHR 0xD0, CHR 0xD1, CHR 0xD2, CHR 0xD3, CHR 0xD4, CHR 0xD5, CHR 0xD6, CHR 0xD8,
               CHR 0xD9, CHR 0xDA, CHR 0xDB, CHR 0xDC, CHR 0xDD, CHR 0xDE])
             (''abcdefghijklmnopqrstuvwxyz'' @
              [CHR 0xE0, CHR 0xE1, CHR 0xE2, CHR 0xE3, CHR 0xE4, CHR 0xE5, CHR 0xE6, CHR 0xE7,
               CHR 0xE8, CHR 0xE9, CHR 0xEA, CHR 0xEB, CHR 0xEC, CHR 0xED, CHR 0xEE, CHR 0xEF,
               CHR 0xF0, CHR 0xF1, CHR 0xF2, CHR 0xF3, CHR 0xF4, CHR 0xF5, CHR 0xF6, CHR 0xF8,
               CHR 0xF9, CHR 0xFA, CHR 0xFB, CHR 0xFC, CHR 0xFD, CHR 0xFE])) c of
        Some l \<Rightarrow> l
      | None \<Rightarrow> c)"

definition strip_diacritic_spec :: "char \<Rightarrow> char" where
  "strip_diacritic_spec c =
     (case map_of
        [(CHR 0xE0, CHR ''a''), (CHR 0xE1, CHR ''a''), (CHR 0xE2, CHR ''a''),
         (CHR 0xE3, CHR ''a''), (CHR 0xE4, CHR ''a''), (CHR 0xE5, CHR ''a''),
         (CHR 0xE7, CHR ''c''),
         (CHR 0xE8, CHR ''e''), (CHR 0xE9, CHR ''e''), (CHR 0xEA, CHR ''e''),
         (CHR 0xEB, CHR ''e''),
         (CHR 0xEC, CHR ''i''), (CHR 0xED, CHR ''i''), (CHR 0xEE, CHR ''i''),
         (CHR 0xEF, CHR ''i''),
         (CHR 0xF1, CHR ''n''),
         (CHR 0xF2, CHR ''o''), (CHR 0xF3, CHR ''o''), (CHR 0xF4, CHR ''o''),
         (CHR 0xF5, CHR ''o''), (CHR 0xF6, CHR ''o''),
         (CHR 0xF9, CHR ''u''), (CHR 0xFA, CHR ''u''), (CHR 0xFB, CHR ''u''),
         (CHR 0xFC, CHR ''u''),
         (CHR 0xFD, CHR ''y''), (CHR 0xFF, CHR ''y'')] c of
        Some b \<Rightarrow> b
      | None \<Rightarrow> c)"

definition alnum_spec :: "char \<Rightarrow> bool" where
  "alnum_spec c = (c \<in> set ''abcdefghijklmnopqrstuvwxyz0123456789'')"

function collapse_spec :: "string \<Rightarrow> string" where
  "collapse_spec [] = []"
| "collapse_spec (c # cs) =
     (if alnum_spec c then c # collapse_spec cs
      else CHR '' '' # collapse_spec (dropWhile (\<lambda>d. \<not> alnum_spec d) cs))"
  by pat_completeness auto
termination
  by (relation "measure length") (auto simp: length_dropWhile_le less_Suc_eq_le)

definition trim_spec :: "string \<Rightarrow> string" where
  "trim_spec s =
     rev (dropWhile (\<lambda>c. c = CHR '' '') (rev (dropWhile (\<lambda>c. c = CHR '' '') s)))"

definition norm_spec :: "string \<Rightarrow> string" where
  "norm_spec s = trim_spec (collapse_spec (map (\<lambda>c. strip_diacritic_spec (lower_spec c)) s))"

text \<open>
  The superscript and ordinal signs and the three fractions of Latin-1 carry no diacritic,
  yet \<open>NFKD\<close> turns them into letters and digits. A string without them is plain.
\<close>

definition plain :: "string \<Rightarrow> bool" where
  "plain s =
     (\<forall>c\<in>set s. c \<notin> set [CHR 0xAA, CHR 0xBA, CHR 0xB2, CHR 0xB3, CHR 0xB9, CHR 0xBC, CHR 0xBD,
                             CHR 0xBE])"

text \<open>
  The lookup order in the words of the specification: the ISO code against each group's
  ISO list, then the normalised name against each group's normalised names, then the
  two substrings of the normalised name, and otherwise no group.
\<close>

definition classify_spec :: "feature \<Rightarrow> GroupKey option" where
  "classify_spec f =
     (let isoU = toUpperCase (case getFeatISO3 f of None \<Rightarrow> [] | Some v \<Rightarrow> v);
          nameN = norm_spec (case getFeatName f of None \<Rightarrow> [] | Some v \<Rightarrow> v)
      in case find (\<lambda>kg. isoU \<in> set (iso3 (snd kg))) GROUPS of
           Some kg \<Rightarrow> Some (fst kg)
         | None \<Rightarrow>
             (case find (\<lambda>kg. nameN \<in> set (map norm_spec (names (snd kg)))) GROUPS of
                Some kg \<Rightarrow> Some (fst kg)
              | None \<Rightarrow>
                  if sublist ''united kingdom'' nameN \<or> sublist ''great britain'' nameN
                  then Some GBR else None))"

section \<open>Statistics label: \<open>labelInfo\<close>\<close>

record stats =
  offices :: int
  employees :: int

definition COUNTRY_STATS :: "(string \<times> stats) list" where
  "COUNTRY_STATS =
     [(''CAN'', \<lparr>offices = 10, employees = 1123\<rparr>),
      (''Canada'', \<lparr>offices = 10, employees = 1123\<rparr>),
      (''USA'', \<lparr>offices = 6, employees = 362\<rparr>),
      (''United States of America'', \<lparr>offices = 6, employees = 362\<rparr>),
      (''GBR'', \<lparr>offices = 17, employees = 765\<rparr>),
      (''United Kingdom'', \<lparr>offices = 17, employees = 765\<rparr>),
      (''CHN'', \<lparr>offices = 3, employees = 12\<rparr>),
      (''China'', \<lparr>offices = 3, employees = 12\<rparr>),
      (''AUS'', \<lparr>offices = 11, employees = 351\<rparr>),
      (''Australia'', \<lparr>offices = 11, employees = 351\<rparr>)]"

text \<open>A group key as the string it is in the source.\<close>

fun key_string :: "GroupKey \<Rightarrow> string" where
  "key_string CAN = ''CAN''"
| "key_string USA = ''USA''"
| "key_string GBR = ''GBR''"
| "key_string CHN = ''CHN''"
| "key_string AUS = ''AUS''"

fun canonicalName :: "GroupKey \<Rightarrow> string" where
  "canonicalName CAN = ''Canada''"
| "canonicalName USA = ''United States of America''"
| "canonicalName GBR = ''United Kingdom''"
| "canonicalName CHN = ''China''"
| "canonicalName AUS = ''Australia''"

definition is_digit :: "char \<Rightarrow> bool" where
  "is_digit c = (let n = (of_char c :: nat) in 48 \<le> n \<and> n \<le> 57)"

definition digit_value :: "char \<Rightarrow> int" where
  "digit_value c = int (of_char c) - 48"

text \<open>
  \<open>parseInt(s, 10)\<close>: leading white space is skipped, one sign is read, and the longest
  run of decimal digits that follows is the value; \<open>None\<close> is \<open>NaN\<close>, the result when
  there is no digit. The value is an unbounded integer.
\<close>

definition parseInt10 :: "string \<Rightarrow> int option" where
  "parseInt10 s =
     (let s1 = dropWhile is_space s;
          neg = (s1 \<noteq> [] \<and> hd s1 = CHR ''-'');
          s2 = (if s1 \<noteq> [] \<and> (hd s1 = CHR ''-'' \<or> hd s1 = CHR ''+'') then tl s1 else s1);
          ds = takeWhile is_digit s2
      in if ds = [] then None
         else Some ((if neg then - 1 else 1) * foldl (\<lambda>acc c. acc * 10 + digit_value c) 0 ds))"

text \<open>
  \<open>n.toLocaleString('en-US')\<close> on an integer: the decimal digits in groups of three,
  separated by commas, after a minus sign when negative.
\<close>

fun digits :: "nat \<Rightarrow> string" where
  "digits n = (if n < 10 then [char_of (48 + n)] else digits (n div 10) @ [char_of (48 + n mod 10)])"

fun group_rev :: "string \<Rightarrow> string" where
  "group_rev (a # b # c # d # rest) = a # b # c # CHR '','' # group_rev (d # rest)"
| "group_rev ds = ds"

definition toLocaleString :: "int \<Rightarrow> string" where
  "toLocaleString n = (if n < 0 then ''-'' else []) @ rev (group_rev (rev (digits (nat \<bar>n\<bar>))))"

record label_info =
  name :: string
  offices_text :: string
  employees_text :: string

text \<open>
  The override of one statistic, \<open>param ? parseInt(param, 10) || 0 : dflt\<close>: a parameter
  that is absent or the empty string leaves the default.
\<close>

definition override :: "string option \<Rightarrow> int \<Rightarrow> int" where
  "override param dflt =
     (case param of
        None \<Rightarrow> dflt
      | Some v \<Rightarrow>
          if v \<noteq> [] then (case parseInt10 v of None \<Rightarrow> 0 | Some n \<Rightarrow> if n \<noteq> 0 then n else 0)
          else dflt)"

definition labelInfo :: "feature option \<Rightarrow> (string \<rightharpoonup> string) \<Rightarrow> label_info option" where
  "labelInfo selected urlParams =
     (case selected of
        None \<Rightarrow> None
      | Some f \<Rightarrow>
          (case groupId f of
             None \<Rightarrow> None
           | Some g \<Rightarrow>
               let STATS_KEY = canonicalName g;
                   officesParam = urlParams ''offices'';
                   employeesParam = urlParams ''employees'';
                   defaultStats =
                     (case map_of COUNTRY_STATS (key_string g) of
                        Some st \<Rightarrow> st
                      | None \<Rightarrow>
                          (case map_of COUNTRY_STATS STATS_KEY of
                             Some st \<Rightarrow> st
                           | None \<Rightarrow> \<lparr>offices = 0, employees = 0\<rparr>));
                   st = \<lparr>offices = override officesParam (offices defaultStats),
                         employees = override employeesParam (employees defaultStats)\<rparr>
               in Some \<lparr>name = canonicalName g,
                        offices_text = toLocaleString (offices st),
                        employees_text = toLocaleString (employees st)\<rparr>))"

section \<open>Frame-driven animation: \<open>animatePOV\<close> and \<open>startEasedFade\<close>\<close>

record pov =
  lat :: jsnum
  lng :: jsnum
  altitude :: jsnum

text \<open>
  A callback handed to \<open>requestAnimationFrame\<close>, with the variables its closure holds:
  \<open>step\<close> of \<open>animatePOV\<close> (\<open>from\<close>, \<open>to\<close>, \<open>dLng\<close>, \<open>t0\<close>, \<open>ms\<close>, \<open>easing\<close>) and
  \<open>tick\<close> of \<open>startEasedFade\<close> (\<open>t0\<close>, \<open>t1\<close>).
\<close>

datatype callback =
  CamStep pov pov jsnum real real "jsnum \<Rightarrow> jsnum option"
| FadeTick real real

text \<open>
  The state: the point of view held by the globe (\<open>None\<close> while \<open>globeRef.current\<close> is
  null), \<open>fadeT\<close>, \<open>fadeRAF.current\<close>, and the browser's list of pending frame callbacks
  in the order of their registration, with the number of handles handed out so far.
\<close>

record app =
  globe :: "pov option"
  fadeT :: jsnum
  fadeRAF :: "nat option"
  rafQueue :: "(nat \<times> callback) list"
  rafCount :: nat

text \<open>
  The views of \<open>CUSTOM_VIEWS\<close>, and the state once the effects of the first render have
  run: the point of view is set to \<open>{ lat: applyScreenLift(40), lng: -10, altitude: 1.8 }\<close>
  and nothing is pending.
\<close>

fun CUSTOM_VIEWS :: "GroupKey \<Rightarrow> pov" where
  "CUSTOM_VIEWS CAN = \<lparr>lat = Num (4061 / 100), lng = Num (- 9885 / 100), altitude = Num (18 / 10)\<rparr>"
| "CUSTOM_VIEWS USA = \<lparr>lat = Num 27, lng = Num (- 9521 / 100), altitude = Num (18 / 10)\<rparr>"
| "CUSTOM_VIEWS GBR = \<lparr>lat = Num (3266 / 100), lng = Num (- 134 / 100), altitude = Num (18 / 10)\<rparr>"
| "CUSTOM_VIEWS CHN = \<lparr>lat = Num (2023 / 100), lng = Num (10572 / 100), altitude = Num (18 / 10)\<rparr>"
| "CUSTOM_VIEWS AUS = \<lparr>lat = Num (- 4768 / 100), lng = Num (13688 / 100), altitude = Num (18 / 10)\<rparr>"

definition initial_app :: app where
  "initial_app =
     \<lparr>globe = Some \<lparr>lat = Num (applyScreenLift 40 SCREEN_LIFT_DEG), lng = Num (- 10),
                     altitude = Num (18 / 10)\<rparr>,
      fadeT = Num 0, fadeRAF = None, rafQueue = [], rafCount = 0\<rparr>"

text \<open>Handles are the positive integers, in order.\<close>

definition requestAnimationFrame :: "callback \<Rightarrow> app \<Rightarrow> nat \<times> app" where
  "requestAnimationFrame cb s =
     (Suc (rafCount s),
      s\<lparr>rafQueue := rafQueue s @ [(Suc (rafCount s), cb)], rafCount := Suc (rafCount s)\<rparr>)"

definition cancelAnimationFrame :: "nat \<Rightarrow> app \<Rightarrow> app" where
  "cancelAnimationFrame h s = s\<lparr>rafQueue := filter (\<lambda>e. fst e \<noteq> h) (rafQueue s)\<rparr>"

text \<open>Lines 378 to 380: the longitude delta of \<open>animatePOV\<close>.\<close>

definition dLng_of :: "jsnum \<Rightarrow> jsnum \<Rightarrow> jsnum" where
  "dLng_of to_lng from_lng =
     (let dLng = js_sub to_lng from_lng;
          dLng = (if js_gt dLng (Num 180) then js_sub dLng (Num 360) else dLng);
          dLng = (if js_lt dLng (Num (- 180)) then js_add dLng (Num 360) else dLng)
      in dLng)"

text \<open>\<open>animatePOV(to, ms, easing)\<close> called when \<open>performance.now()\<close> is \<open>now\<close>.\<close>

definition animatePOV :: "pov \<Rightarrow> real \<Rightarrow> (jsnum \<Rightarrow> jsnum option) \<Rightarrow> real \<Rightarrow> app \<Rightarrow> app" where
  "animatePOV to ms easing now s =
     (case globe s of
        None \<Rightarrow> s
      | Some from \<Rightarrow>
          let dLng = dLng_of (lng to) (lng from);
              t0 = now
          in snd (requestAnimationFrame (CamStep from to dLng t0 ms easing) s))"

text \<open>\<open>startEasedFade(delayMs, durMs)\<close> called when \<open>performance.now()\<close> is \<open>now\<close>.\<close>

definition startEasedFade :: "real \<Rightarrow> real \<Rightarrow> real \<Rightarrow> app \<Rightarrow> app" where
  "startEasedFade delayMs durMs now s =
     (let s1 = (case fadeRAF s of
                  None \<Rightarrow> s
                | Some h \<Rightarrow> if h \<noteq> 0 then cancelAnimationFrame h s else s);
          t0 = now + delayMs;
          t1 = t0 + durMs;
          r = requestAnimationFrame (FadeTick t0 t1) s1
      in (snd r)\<lparr>fadeRAF := Some (fst r)\<rparr>)"

text \<open>
  One callback run by the browser with the frame time \<open>now\<close>; \<open>None\<close> if the easing
  function does not return.
\<close>

fun run_callback :: "real \<Rightarrow> callback \<Rightarrow> app \<Rightarrow> app option" where
  "run_callback now (CamStep from to dLng t0 ms easing) s =
     (let p = js_min (Num 1) (js_div (Num (now - t0)) (Num ms))
      in case easing p of
           None \<Rightarrow> None
         | Some e \<Rightarrow>
             let s1 = s\<lparr>globe := Some
                        \<lparr>lat = js_add (lat from) (js_mul (js_sub (lat to) (lat from)) e),
                         lng = js_add (lng from) (js_mul dLng e),
                         altitude = js_add (altitude from)
                                      (js_mul (js_sub (altitude to) (altitude from)) e)\<rparr>\<rparr>
             in Some (if js_lt p (Num 1)
                      then snd (requestAnimationFrame (CamStep from to dLng t0 ms easing) s1)
                      else s1))"
| "run_callback now (FadeTick t0 t1) s =
     (if now < t0
      then (let r = requestAnimationFrame (FadeTick t0 t1) (s\<lparr>fadeT := Num 0\<rparr>)
            in Some ((snd r)\<lparr>fadeRAF := Some (fst r)\<rparr>))
      else (let p = js_min (Num 1) (js_div (Num (now - t0)) (Num (t1 - t0)))
            in case easeCB p of
                 None \<Rightarrow> None
               | Some e \<Rightarrow>
                   let s1 = s\<lparr>fadeT := e\<rparr>
                   in Some (if js_lt p (Num 1)
                            then (let r = requestAnimationFrame (FadeTick t0 t1) s1
                                  in (snd r)\<lparr>fadeRAF := Some (fst r)\<rparr>)
                            else s1)))"

text \<open>
  One frame: the callbacks that were pending when the frame began run in the order of
  their registration, and what they register is pending for the next frame.
\<close>

fun run_callbacks :: "real \<Rightarrow> (nat \<times> callback) list \<Rightarrow> app \<Rightarrow> app option" where
  "run_callbacks now [] s = Some s"
| "run_callbacks now (e # es) s =
     (case run_callback now (snd e) s of
        None \<Rightarrow> None
      | Some s' \<Rightarrow> run_callbacks now es s')"

definition run_frame :: "real \<Rightarrow> app \<Rightarrow> app option" where
  "run_frame now s = run_callbacks now (rafQueue s) (s\<lparr>rafQueue := []\<rparr>)"

text \<open>
  The discipline of the fade session as an invariant of a list of pending callbacks:
  handles are positive, handed out already and pairwise different, and a pending
  \<open>tick\<close> is the callback that \<open>fadeRAF.current\<close> names.
\<close>

fun is_fade :: "callback \<Rightarrow> bool" where
  "is_fade (FadeTick t0 t1) = True"
| "is_fade (CamStep from to dLng t0 ms easing) = False"

definition pending_ok :: "(nat \<times> callback) list \<Rightarrow> app \<Rightarrow> bool" where
  "pending_ok q s =
     ((\<forall>e\<in>set q. 0 < fst e \<and> fst e \<le> rafCount s)
      \<and> distinct (map fst q)
      \<and> (\<forall>e\<in>set q. is_fade (snd e) \<longrightarrow> fadeRAF s = Some (fst e)))"

definition app_inv :: "app \<Rightarrow> bool" where
  "app_inv s = pending_ok (rafQueue s) s"

text \<open>
  The output of a fade session in the words of the specification: \<open>0\<close> before
  \<open>startTime + delay\<close>, and from then on the easing curve at the progress
  \<open>(now - (startTime + delay)) / duration\<close> clamped to \<open>[0, 1]\<close>.
\<close>

definition fade_spec :: "real \<Rightarrow> real \<Rightarrow> real \<Rightarrow> real \<Rightarrow> jsnum option" where
  "fade_spec startTime delayMs durMs now =
     (if now < startTime + delayMs then Some (Num 0)
      else easeCB (clamp01 (js_div (Num (now - (startTime + delayMs))) (Num durMs))))"

text \<open>Whether \<open>tick\<close>, run at the frame time \<open>now\<close>, asks for another frame.\<close>

definition fade_continues :: "real \<Rightarrow> real \<Rightarrow> real \<Rightarrow> real \<Rightarrow> bool" where
  "fade_continues startTime delayMs durMs now =
     (now < startTime + delayMs
      \<or> js_lt (js_min (Num 1) (js_div (Num (now - (startTime + delayMs))) (Num durMs))) (Num 1))"

text \<open>
  The states that the modelled operations reach from the initial one; the last rule is
  the globe moving the point of view by itself (rotation, a drag of the user).
\<close>

inductive reachable :: "app \<Rightarrow> bool" where
  reach_initial: "reachable initial_app"
| reach_animatePOV: "reachable s \<Longrightarrow> reachable (animatePOV to ms easing now s)"
| reach_startEasedFade: "reachable s \<Longrightarrow> reachable (startEasedFade delayMs durMs now s)"
| reach_frame: "reachable s \<Longrightarrow> run_frame now s = Some s' \<Longrightarrow> reachable s'"
| reach_globe: "reachable s \<Longrightarrow> reachable (s\<lparr>globe := g\<rparr>)"

section \<open>Properties of the easing engine\<close>


lemma sampleX_1: "sampleX x1 x2 1 = 1"
  by (simp add: sampleX_def coef_a_def coef_b_def coef_c_def)


lemma sampleY_1: "sampleY y1 y2 1 = 1"
  by (simp add: sampleY_def coef_a_def coef_b_def coef_c_def)

lemma newton_fixed: "sampleX x1 x2 t = x \<Longrightarrow> newton x1 x2 x n t = t"
  by (induction n) (simp_all add: Let_def)

lemma SUBDIV_EPS_pos: "0 < SUBDIV_EPS"
  by (simp add: SUBDIV_EPS_def)

lemma bisect_hit:
  "t0 < t1 \<Longrightarrow> sampleX x1 x2 t = x \<Longrightarrow> bisect x1 x2 x t t0 t1 = Some t"
  by (subst bisect.simps) (simp add: bisect_pass_def SUBDIV_EPS_pos)

lemma bisect_exit: "\<not> t0 < t1 \<Longrightarrow> bisect x1 x2 x t t0 t1 = Some t"
  by (subst bisect.simps) simp

lemma bisect_done:
  "t0 < t1 \<Longrightarrow> bisect_pass x1 x2 x t t0 t1 = Done r \<Longrightarrow> bisect x1 x2 x t t0 t1 = Some r"
  by (subst bisect.simps) simp

lemma bisect_next:
  "t0 < t1 \<Longrightarrow> bisect_pass x1 x2 x t t0 t1 = Next t' t0' t1' \<Longrightarrow>
   bisect x1 x2 x t t0 t1 = bisect x1 x2 x t' t0' t1'"
  by (subst bisect.simps) simp

lemma halve_measure:
  fixes w :: real
  assumes "SUBDIV_EPS \<le> w / 2"
  shows "nat \<lceil>(w / 2) / SUBDIV_EPS\<rceil> < nat \<lceil>w / SUBDIV_EPS\<rceil>"
proof -
  have e: "0 < SUBDIV_EPS" by (rule SUBDIV_EPS_pos)
  have "1 \<le> (w / 2) / SUBDIV_EPS" using assms e by (simp add: field_simps)
  moreover have "w / SUBDIV_EPS = (w / 2) / SUBDIV_EPS + (w / 2) / SUBDIV_EPS"
    by (simp add: field_simps)
  ultimately have "(w / 2) / SUBDIV_EPS + 1 \<le> w / SUBDIV_EPS" by linarith
  then have "\<lceil>(w / 2) / SUBDIV_EPS\<rceil> + 1 \<le> \<lceil>w / SUBDIV_EPS\<rceil>"
    by (metis ceiling_add_one ceiling_mono)
  moreover have "0 < \<lceil>(w / 2) / SUBDIV_EPS\<rceil>" using \<open>1 \<le> (w / 2) / SUBDIV_EPS\<close> by linarith
  ultimately show ?thesis by linarith
qed

lemma bisect_pass_mid:
  assumes "bisect_pass x1 x2 x ((t0 + t1) / 2) t0 t1 = Next t' t0' t1'"
  shows "t' = (t0' + t1') / 2 \<and> t1' - t0' = (t1 - t0) / 2 \<and> SUBDIV_EPS \<le> t1' - t0'"
  using assms by (auto simp: bisect_pass_def Let_def field_simps split: if_splits)

lemma bisect_pass_any:
  assumes "bisect_pass x1 x2 x t t0 t1 = Next t' t0' t1'"
  shows "t' = (t0' + t1') / 2"
  using assms by (auto simp: bisect_pass_def Let_def split: if_splits)

text \<open>
  Every pass that continues leaves \<open>t\<close> at the midpoint of the new bracket, so a pass
  entered at the midpoint halves the width. The number of widths of \<open>SUBDIV_EPS\<close> that
  fit into the bracket is the measure that decreases.
\<close>

lemma bisect_mid_returns: "\<exists>r. bisect x1 x2 x ((t0 + t1) / 2) t0 t1 = Some r"
proof (induction "nat \<lceil>(t1 - t0) / SUBDIV_EPS\<rceil>" arbitrary: t0 t1 rule: less_induct)
  case less
  show ?case
  proof (cases "t0 < t1")
    case False
    then show ?thesis using bisect_exit by blast
  next
    case True
    show ?thesis
    proof (cases "bisect_pass x1 x2 x ((t0 + t1) / 2) t0 t1")
      case (Done r)
      with True show ?thesis using bisect_done by blast
    next
      case (Next t' t0' t1')
      from bisect_pass_mid [OF Next]
      have m: "t' = (t0' + t1') / 2" and w: "t1' - t0' = (t1 - t0) / 2"
        and e: "SUBDIV_EPS \<le> t1' - t0'" by simp_all
      from e have "SUBDIV_EPS \<le> (t1 - t0) / 2" unfolding w .
      then have "nat \<lceil>(t1' - t0') / SUBDIV_EPS\<rceil> < nat \<lceil>(t1 - t0) / SUBDIV_EPS\<rceil>"
        unfolding w by (rule halve_measure)
      from less [OF this] obtain r where "bisect x1 x2 x ((t0' + t1') / 2) t0' t1' = Some r"
        by blast
      with bisect_next [OF True Next] m show ?thesis by simp
    qed
  qed
qed

lemma bisect_returns: "\<exists>r. bisect x1 x2 x t t0 t1 = Some r"
proof (cases "t0 < t1")
  case False
  then show ?thesis using bisect_exit by blast
next
  case True
  show ?thesis
  proof (cases "bisect_pass x1 x2 x t t0 t1")
    case (Done r)
    with True show ?thesis using bisect_done by blast
  next
    case (Next t' t0' t1')
    from bisect_pass_any [OF Next] have m: "t' = (t0' + t1') / 2" .
    from bisect_mid_returns obtain r where "bisect x1 x2 x ((t0' + t1') / 2) t0' t1' = Some r"
      by blast
    with bisect_next [OF True Next] m show ?thesis by simp
  qed
qed

lemma solveX_returns: "\<exists>t. solveX x1 x2 x = Some t"
  unfolding solveX_def by (rule bisect_returns)

lemma clamp01_Num: "clamp01 (Num r) = Num (min (max r 0) 1)"
  by (simp add: clamp01_def)

lemma clamp01_PosInf: "clamp01 PosInf = Num 1"
  by (simp add: clamp01_def)

lemma clamp01_NegInf: "clamp01 NegInf = Num 0"
  by (simp add: clamp01_def)

lemma clamp01_NaN: "clamp01 NaN = NaN"
  by (simp add: clamp01_def)

lemma clamp01_idem: "clamp01 (clamp01 x) = clamp01 x"
  by (cases x) (simp_all add: clamp01_Num clamp01_PosInf clamp01_NegInf clamp01_NaN)

lemma clamp01_min1: "clamp01 (js_min (Num 1) q) = clamp01 q"
  by (cases q) (auto simp: clamp01_Num clamp01_PosInf clamp01_NegInf clamp01_NaN)

lemma cubicBezier_clamp: "cubicBezier x1 y1 x2 y2 (clamp01 x) = cubicBezier x1 y1 x2 y2 x"
  by (simp add: cubicBezier_def clamp01_idem)

lemma cubicBezier_returns: "\<exists>y. cubicBezier x1 y1 x2 y2 x = Some y"
proof (cases "clamp01 x")
  case (Num c)
  obtain t where "solveX x1 x2 c = Some t" using solveX_returns by blast
  with Num show ?thesis by (simp add: cubicBezier_def)
qed (simp_all add: cubicBezier_def)


lemma cubicBezier_at_1: "cubicBezier x1 y1 x2 y2 (Num 1) = Some (Num 1)"
  by (simp add: cubicBezier_def clamp01_Num solveX_def newton_fixed sampleX_1 bisect_hit sampleY_1)




section \<open>Properties of the spherical centroid\<close>

lemma fold_add_vertex:
  "fold add_vertex r (x, y, z, n) =
     (x + (\<Sum>p\<leftarrow>r. fst (unit_vector p)),
      y + (\<Sum>p\<leftarrow>r. fst (snd (unit_vector p))),
      z + (\<Sum>p\<leftarrow>r. snd (snd (unit_vector p))),
      n + length r)"
proof (induction r arbitrary: x y z n)
  case Nil
  show ?case by simp
next
  case (Cons p r)
  have "add_vertex p (x, y, z, n) =
          (x + fst (unit_vector p), y + fst (snd (unit_vector p)),
           z + snd (snd (unit_vector p)), n + 1)"
    by (simp add: add_vertex_def unit_vector_def Let_def)
  then show ?case by (simp add: Cons.IH add.assoc)
qed

lemma fold_add_ring:
  "fold add_ring rs (x, y, z, n) =
     (x + (\<Sum>p\<leftarrow>concat rs. fst (unit_vector p)),
      y + (\<Sum>p\<leftarrow>concat rs. fst (snd (unit_vector p))),
      z + (\<Sum>p\<leftarrow>concat rs. snd (snd (unit_vector p))),
      n + length (concat rs))"
proof (induction rs arbitrary: x y z n)
  case Nil
  show ?case by simp
next
  case (Cons r rs)
  show ?case by (simp add: add_ring_def fold_add_vertex Cons.IH [unfolded add_ring_def] add.assoc)
qed

lemma atan2_gt: "- pi < atan2 y x"
proof -
  have a: "- (pi / 2) < arctan (y / x)" by (rule arctan_lbound)
  have p: "0 < pi" by (rule pi_gt_zero)
  consider "0 < x" | "x < 0" "0 \<le> y" | "x < 0" "y < 0" | "x = 0" by linarith
  then show ?thesis
  proof cases
    case 1
    then have "atan2 y x = arctan (y / x)" by (simp add: atan2_def)
    with a p show ?thesis by linarith
  next
    case 2
    then have "atan2 y x = arctan (y / x) + pi" by (simp add: atan2_def)
    with a p show ?thesis by linarith
  next
    case 3
    then have "atan2 y x = arctan (y / x) - pi" by (simp add: atan2_def)
    moreover from 3 have "0 < arctan (y / x)" by (simp add: divide_neg_neg)
    ultimately show ?thesis by linarith
  next
    case 4
    then have "atan2 y x = pi / 2 \<or> atan2 y x = - (pi / 2) \<or> atan2 y x = 0"
      by (simp add: atan2_def)
    with p show ?thesis by linarith
  qed
qed

lemma atan2_le: "atan2 y x \<le> pi"
proof -
  have a: "arctan (y / x) < pi / 2" by (rule arctan_ubound)
  have p: "0 < pi" by (rule pi_gt_zero)
  consider "0 < x" | "x < 0" "0 \<le> y" | "x < 0" "y < 0" | "x = 0" by linarith
  then show ?thesis
  proof cases
    case 1
    then have "atan2 y x = arctan (y / x)" by (simp add: atan2_def)
    with a p show ?thesis by linarith
  next
    case 2
    then have "atan2 y x = arctan (y / x) + pi" by (simp add: atan2_def)
    moreover from 2 have "arctan (y / x) \<le> 0" by (simp add: divide_nonneg_neg)
    ultimately show ?thesis by linarith
  next
    case 3
    then have "atan2 y x = arctan (y / x) - pi" by (simp add: atan2_def)
    with a p show ?thesis by linarith
  next
    case 4
    then have "atan2 y x = pi / 2 \<or> atan2 y x = - (pi / 2) \<or> atan2 y x = 0"
      by (simp add: atan2_def)
    with p show ?thesis by linarith
  qed
qed

lemma atan2_degrees: "- 180 < atan2 y x * 180 / pi \<and> atan2 y x * 180 / pi \<le> 180"
proof -
  have "- pi < atan2 y x" "atan2 y x \<le> pi" by (rule atan2_gt, rule atan2_le)
  then show ?thesis using pi_gt_zero by (simp add: field_simps)
qed


lemma wrap_twice_atan2:
  "(let a = atan2 y x * 180 / pi; a = (if a > 180 then a - 360 else a)
    in if a < - 180 then a + 360 else a) = atan2 y x * 180 / pi"
  using atan2_degrees [of y x] by (simp add: Let_def)

lemma sphericalCentroid_sums:
  "sphericalCentroid feat =
     (let ps = concat (coords (geometry feat));
          n = real (length ps);
          sx = (\<Sum>p\<leftarrow>ps. fst (unit_vector p));
          sy = (\<Sum>p\<leftarrow>ps. fst (snd (unit_vector p)));
          sz = (\<Sum>p\<leftarrow>ps. snd (snd (unit_vector p)))
      in if ps = [] then (0, 0)
         else (atan2 (sy / n) (sx / n) * 180 / pi,
               atan2 (sz / n) (hypot (sx / n) (sy / n)) * 180 / pi))"
proof -
  have "sphericalCentroid feat =
     (let ps = concat (coords (geometry feat));
          n = real (length ps);
          sx = (\<Sum>p\<leftarrow>ps. fst (unit_vector p));
          sy = (\<Sum>p\<leftarrow>ps. fst (snd (unit_vector p)));
          sz = (\<Sum>p\<leftarrow>ps. snd (snd (unit_vector p)))
      in if length ps = 0 then (0, 0)
         else ((let a = atan2 (sy / n) (sx / n) * 180 / pi;
                    a = (if a > 180 then a - 360 else a)
                in if a < - 180 then a + 360 else a),
               atan2 (sz / n) (hypot (sx / n) (sy / n)) * 180 / pi))"
    unfolding sphericalCentroid_def fold_add_ring by (simp add: Let_def)
  then show ?thesis
    unfolding wrap_twice_atan2 by (simp only: length_0_conv)
qed







section \<open>The centroid of a single vertex\<close>

text \<open>
  In exact arithmetic the way from degrees to the unit vector and back is the identity
  for every vertex that is not a pole. At a pole \<open>cos lat\<close> is \<open>0\<close>, the vector is
  \<open>(0, 0, \<plusminus>1)\<close> whatever the longitude, and \<open>atan2 0 0 = 0\<close> is returned for it.
\<close>

lemma atan2_polar:
  assumes r: "0 < r" and lo: "- pi < a" and hi: "a \<le> pi"
  shows "atan2 (r * sin a) (r * cos a) = a"
proof -
  consider "- (pi / 2) < a" "a < pi / 2" | "a = pi / 2" | "a = - (pi / 2)"
    | "pi / 2 < a" | "a < - (pi / 2)"
    by linarith
  then show ?thesis
  proof cases
    case 1
    then have c: "0 < cos a" by (rule cos_gt_zero_pi)
    with r have "0 < r * cos a" by simp
    then have "atan2 (r * sin a) (r * cos a) = arctan ((r * sin a) / (r * cos a))"
      by (simp add: atan2_def)
    also have "(r * sin a) / (r * cos a) = tan a" using r by (simp add: tan_def)
    also have "arctan (tan a) = a" using 1 by (rule arctan_tan)
    finally show ?thesis .
  next
    case 2
    have "cos a = 0" "sin a = 1" by (simp_all add: 2)
    with r 2 show ?thesis by (simp add: atan2_def)
  next
    case 3
    have "cos a = 0" "sin a = - 1" by (simp_all add: 3)
    with r 3 show ?thesis by (simp add: atan2_def)
  next
    case 4
    let ?b = "a - pi"
    from 4 hi have b: "- (pi / 2) < ?b" "?b < pi / 2" using pi_gt_zero by linarith+
    have cb: "0 < cos ?b" using b by (rule cos_gt_zero_pi)
    have ca: "cos a = - cos ?b" by (simp only: cos_minus_pi minus_minus)
    have sa: "sin a = - sin ?b" by (simp only: sin_minus_pi minus_minus)
    have "(r * sin a) / (r * cos a) = sin a / cos a" using r by simp
    also have "\<dots> = tan ?b" unfolding ca sa tan_def by simp
    finally have q: "(r * sin a) / (r * cos a) = tan ?b" .
    from 4 hi have "0 \<le> sin a" using pi_gt_zero by (intro sin_ge_zero) linarith+
    with r have y: "0 \<le> r * sin a" by simp
    from cb have "cos a < 0" by simp
    with r have x: "r * cos a < 0" by (simp add: mult_less_0_iff)
    from x y have "atan2 (r * sin a) (r * cos a) = arctan ((r * sin a) / (r * cos a)) + pi"
      by (simp add: atan2_def)
    also have "\<dots> = arctan (tan ?b) + pi" by (simp only: q)
    also have "arctan (tan ?b) = ?b" using b by (rule arctan_tan)
    finally show ?thesis by simp
  next
    case 5
    let ?b = "a + pi"
    from 5 lo have b: "0 < ?b" "?b < pi / 2" using pi_gt_zero by linarith+
    then have b': "- (pi / 2) < ?b" using pi_gt_zero by linarith
    have cb: "0 < cos ?b" using b by (rule cos_gt_zero)
    have sb: "0 < sin ?b" using b by (rule sin_gt_zero2)
    have ca: "cos a = - cos ?b" by (simp only: cos_periodic_pi minus_minus)
    have sa: "sin a = - sin ?b" by (simp only: sin_periodic_pi minus_minus)
    have "(r * sin a) / (r * cos a) = sin a / cos a" using r by simp
    also have "\<dots> = tan ?b" unfolding ca sa tan_def by simp
    finally have q: "(r * sin a) / (r * cos a) = tan ?b" .
    from sb have "sin a < 0" by simp
    with r have y: "r * sin a < 0" by (simp add: mult_less_0_iff)
    from cb have "cos a < 0" by simp
    with r have x: "r * cos a < 0" by (simp add: mult_less_0_iff)
    from x y have "atan2 (r * sin a) (r * cos a) = arctan ((r * sin a) / (r * cos a)) - pi"
      by (simp add: atan2_def)
    also have "\<dots> = arctan (tan ?b) - pi" by (simp only: q)
    also have "arctan (tan ?b) = ?b" using b' b(2) by (rule arctan_tan)
    finally show ?thesis by simp
  qed
qed

lemma sphericalCentroid_single_vertex:
  assumes "- 90 < vlat" and "vlat < 90" and "- 180 < vlng" and "vlng \<le> 180"
  shows "sphericalCentroid \<lparr>geometry = Polygon [[(vlng, vlat)]], properties = pr\<rparr> = (vlng, vlat)"
proof -
  let ?a = "vlng * pi / 180" and ?b = "vlat * pi / 180"
  have p: "0 < pi" by (rule pi_gt_zero)
  from mult_strict_right_mono [OF assms(1) p] mult_strict_right_mono [OF assms(2) p]
  have b: "- (pi / 2) < ?b" "?b < pi / 2" by simp_all
  from mult_strict_right_mono [OF assms(3) p] mult_right_mono [OF assms(4), of pi] p
  have a: "- pi < ?a" "?a \<le> pi" by simp_all
  have c: "0 < cos ?b" using b by (rule cos_gt_zero_pi)
  have "(cos ?b * cos ?a)\<^sup>2 + (cos ?b * sin ?a)\<^sup>2 = (cos ?b)\<^sup>2 * ((cos ?a)\<^sup>2 + (sin ?a)\<^sup>2)"
    by (simp only: power_mult_distrib distrib_left)
  also have "\<dots> = (cos ?b)\<^sup>2" by (simp only: sin_cos_squared_add2 mult_1_right)
  finally have "hypot (cos ?b * cos ?a) (cos ?b * sin ?a) = sqrt ((cos ?b)\<^sup>2)"
    by (simp only: hypot_def)
  with c have h: "hypot (cos ?b * cos ?a) (cos ?b * sin ?a) = cos ?b" by simp
  have lng: "atan2 (cos ?b * sin ?a) (cos ?b * cos ?a) = ?a"
    using c a by (rule atan2_polar)
  have "atan2 (sin ?b) (cos ?b) = arctan (tan ?b)" using c by (simp add: atan2_def tan_def)
  with b have lat: "atan2 (sin ?b) (cos ?b) = ?b" by (simp add: arctan_tan)
  show ?thesis
    by (simp add: sphericalCentroid_sums unit_vector_def Let_def h lng lat)
qed

lemma sphericalCentroid_pole:
  "sphericalCentroid \<lparr>geometry = Polygon [[(vlng, 90)]], properties = pr\<rparr> = (0, 90)"
  by (simp add: sphericalCentroid_sums unit_vector_def Let_def hypot_def atan2_def)

section \<open>Properties of the camera animation\<close>

lemma dLng_of_Num:
  "dLng_of (Num b) (Num a) =
     Num (if b - a > 180 then b - a - 360 else if b - a < - 180 then b - a + 360 else b - a)"
  by (simp add: dLng_of_def js_sub_def js_gt_def Let_def)

lemma animatePOV_queue:
  "globe s = Some from \<Longrightarrow>
   rafQueue (animatePOV to ms easing now s) =
     rafQueue s @ [(Suc (rafCount s), CamStep from to (dLng_of (lng to) (lng from)) now ms easing)]"
  by (simp add: animatePOV_def requestAnimationFrame_def Let_def)

text \<open>
  Claim C2, as amended: \<open>animatePOV\<close> takes the shortest way round for the longitude: a raw
  delta above \<open>180\<close> is lowered by \<open>360\<close>, one below \<open>-180\<close> is raised by \<open>360\<close>. From
  longitude \<open>170\<close> to longitude \<open>-170\<close> the raw delta is \<open>-340\<close> and the delta used is \<open>20\<close>,
  so that the interpolated longitude \<open>170 + 20 e\<close> passes \<open>180\<close>.
\<close>

theorem animatePOV_shortest_dLng:
  assumes "globe s = Some from" and "lng from = Num a" and "lng to = Num b"
  shows "\<exists>d. rafQueue (animatePOV to ms easing now s) =
               rafQueue s @ [(Suc (rafCount s), CamStep from to (Num d) now ms easing)]
             \<and> d = (if b - a > 180 then b - a - 360
                    else if b - a < - 180 then b - a + 360 else b - a)
             \<and> (a = 170 \<and> b = - 170 \<longrightarrow> d = 20)"
  using assms by (simp add: animatePOV_queue dLng_of_Num)

theorem animatePOV_shortest_dLng_witness:
  "rafQueue (animatePOV \<lparr>lat = Num 0, lng = Num (- 170), altitude = Num 2\<rparr> 1000 Some 0
      \<lparr>globe = Some \<lparr>lat = Num 0, lng = Num 170, altitude = Num 2\<rparr>, fadeT = Num 0,
        fadeRAF = None, rafQueue = [], rafCount = 0\<rparr>) =
   [(1, CamStep \<lparr>lat = Num 0, lng = Num 170, altitude = Num 2\<rparr>
          \<lparr>lat = Num 0, lng = Num (- 170), altitude = Num 2\<rparr> (Num 20) 0 1000 Some)]"
  using animatePOV_shortest_dLng [of
      "\<lparr>globe = Some \<lparr>lat = Num 0, lng = Num 170, altitude = Num 2\<rparr>, fadeT = Num 0,
        fadeRAF = None, rafQueue = [], rafCount = 0\<rparr>"
      "\<lparr>lat = Num 0, lng = Num 170, altitude = Num 2\<rparr>" 170
      "\<lparr>lat = Num 0, lng = Num (- 170), altitude = Num 2\<rparr>" "- 170" 1000 Some 0]
  by simp

theorem dLng_170_counterexample:
  "dLng_of (lng \<lparr>lat = Num 0, lng = Num (- 170), altitude = Num 2\<rparr>)
           (lng \<lparr>lat = Num 0, lng = Num 170, altitude = Num 2\<rparr>) \<noteq> Num (- 20)"
  by (simp add: dLng_of_Num)

lemma easeInOut_returns: "\<exists>y. easeInOut x = Some y"
  unfolding easeInOut_def by (rule cubicBezier_returns)

lemma easeInOut_at_1: "easeInOut (Num 1) = Some (Num 1)"
  unfolding easeInOut_def by (rule cubicBezier_at_1)

text \<open>
  Claim C1 on the code. The globe flies to Canada for \<open>1500\<close> ms from time \<open>0\<close>, and at time
  \<open>100\<close> a second call sends it to the United States for \<open>1000\<close> ms. \<open>animatePOV\<close> cancels
  nothing: both \<open>step\<close> callbacks are pending after the second call, the second one ends
  first, and the first one writes the last point of view, its own target.
\<close>

theorem animatePOV_first_target_wins:
  "\<exists>s2 s3 s4 s5 s6.
     run_frame 16 (animatePOV (CUSTOM_VIEWS CAN) 1500 easeInOut 0 initial_app) = Some s2
     \<and> s3 = animatePOV (CUSTOM_VIEWS USA) 1000 easeInOut 100 s2
     \<and> length (rafQueue s3) = 2
     \<and> run_frame 600 s3 = Some s4
     \<and> run_frame 1200 s4 = Some s5
     \<and> run_frame 1600 s5 = Some s6
     \<and> rafQueue s6 = []
     \<and> globe s6 = Some (CUSTOM_VIEWS CAN)
     \<and> globe s6 \<noteq> Some (CUSTOM_VIEWS USA)"
proof -
  have "\<forall>x. \<exists>y. easeInOut x = Some y" using easeInOut_returns by blast
  then have "\<exists>f. \<forall>x. easeInOut x = Some (f x)" by (rule choice)
  then obtain f where f: "\<And>x. easeInOut x = Some (f x)" by blast
  from f [of "Num 1"] have f1: "f (Num 1) = Num 1" by (simp add: easeInOut_at_1)
  show ?thesis
    by (simp add: run_frame_def animatePOV_def requestAnimationFrame_def initial_app_def
        applyScreenLift_def SCREEN_LIFT_DEG_def Let_def f f1 js_sub_def dLng_of_Num)
qed

section \<open>Properties of the fade session\<close>

lemma easeCB_returns: "\<exists>y. easeCB x = Some y"
  unfolding easeCB_def by (rule cubicBezier_returns)

lemma easeCB_at_1: "easeCB (Num 1) = Some (Num 1)"
  unfolding easeCB_def by (rule cubicBezier_at_1)

lemma easeCB_clamp: "easeCB (clamp01 x) = easeCB x"
  unfolding easeCB_def by (rule cubicBezier_clamp)

lemma easeCB_min1: "easeCB (js_min (Num 1) q) = easeCB (clamp01 q)"
proof -
  have "easeCB (js_min (Num 1) q) = easeCB (clamp01 (js_min (Num 1) q))"
    by (simp only: easeCB_clamp)
  then show ?thesis by (simp only: clamp01_min1)
qed

text \<open>What one run of \<open>tick\<close> does to the state.\<close>

lemma fade_spec_returns: "\<exists>v. fade_spec startTime delayMs durMs now = Some v"
  using easeCB_returns by (simp add: fade_spec_def)

lemma run_callback_FadeTick_eq:
  assumes "fade_spec startTime delayMs durMs now = Some v"
  shows "run_callback now (FadeTick (startTime + delayMs) (startTime + delayMs + durMs)) s =
           Some (if fade_continues startTime delayMs durMs now
                 then s\<lparr>fadeT := v,
                        rafQueue := rafQueue s @
                          [(Suc (rafCount s),
                            FadeTick (startTime + delayMs) (startTime + delayMs + durMs))],
                        rafCount := Suc (rafCount s),
                        fadeRAF := Some (Suc (rafCount s))\<rparr>
                 else s\<lparr>fadeT := v\<rparr>)"
proof (cases "now < startTime + delayMs")
  case True
  with assms show ?thesis
    by (simp add: fade_spec_def fade_continues_def requestAnimationFrame_def Let_def)
next
  case False
  with assms show ?thesis
    by (simp add: fade_spec_def fade_continues_def requestAnimationFrame_def Let_def easeCB_min1)
qed

lemma run_callback_FadeTick:
  "\<exists>v. fade_spec startTime delayMs durMs now = Some v
       \<and> (run_callback now (FadeTick (startTime + delayMs) (startTime + delayMs + durMs)) s =
            Some (s\<lparr>fadeT := v\<rparr>)
          \<or> run_callback now (FadeTick (startTime + delayMs) (startTime + delayMs + durMs)) s =
            Some (s\<lparr>fadeT := v,
                    rafQueue := rafQueue s @
                      [(Suc (rafCount s),
                        FadeTick (startTime + delayMs) (startTime + delayMs + durMs))],
                    rafCount := Suc (rafCount s),
                    fadeRAF := Some (Suc (rafCount s))\<rparr>))"
proof -
  obtain v where v: "fade_spec startTime delayMs durMs now = Some v"
    using fade_spec_returns by blast
  show ?thesis
    using v run_callback_FadeTick_eq [OF v, of s]
    by (cases "fade_continues startTime delayMs durMs now") auto
qed

lemma run_callback_CamStep:
  assumes "run_callback now (CamStep from to dLng t0 ms easing) s = Some s'"
  shows "\<exists>g. s' = s\<lparr>globe := g\<rparr>
           \<or> s' = s\<lparr>globe := g,
                    rafQueue := rafQueue s @ [(Suc (rafCount s), CamStep from to dLng t0 ms easing)],
                    rafCount := Suc (rafCount s)\<rparr>"
  using assms
  by (auto simp: requestAnimationFrame_def Let_def split: option.splits if_splits)

lemma pending_ok_fade_unique:
  assumes "pending_ok q s" and "e \<in> set q" and "is_fade (snd e)"
    and "e' \<in> set q" and "is_fade (snd e')"
  shows "e' = e"
proof -
  from assms(1,2,3) have "fadeRAF s = Some (fst e)" unfolding pending_ok_def by blast
  moreover from assms(1,4,5) have "fadeRAF s = Some (fst e')" unfolding pending_ok_def by blast
  ultimately have "fst e' = fst e" by simp
  moreover from assms(1) have "distinct (map fst q)" by (simp add: pending_ok_def)
  ultimately show ?thesis using assms(2,4) by (metis eq_key_imp_eq_value prod.collapse)
qed

lemma pending_ok_tail: "pending_ok (e # q) s \<Longrightarrow> pending_ok q s"
  by (simp add: pending_ok_def)

lemma pending_ok_state:
  assumes "pending_ok q s" and "rafCount s' = rafCount s" and "fadeRAF s' = fadeRAF s"
  shows "pending_ok q s'"
  using assms by (simp add: pending_ok_def)

lemma pending_ok_register:
  assumes "pending_ok q s" and "\<not> is_fade cb"
    and "rafCount s' = Suc (rafCount s)" and "fadeRAF s' = fadeRAF s"
  shows "pending_ok (q @ [(Suc (rafCount s), cb)]) s'"
proof -
  from assms(1) have b: "\<forall>e\<in>set q. 0 < fst e \<and> fst e \<le> rafCount s"
    and d: "distinct (map fst q)"
    and f: "\<forall>e\<in>set q. is_fade (snd e) \<longrightarrow> fadeRAF s = Some (fst e)"
    by (simp_all add: pending_ok_def)
  from b have "Suc (rafCount s) \<notin> fst ` set q" by force
  with d have "distinct (map fst (q @ [(Suc (rafCount s), cb)]))" by simp
  moreover from b assms(3)
  have "\<forall>e\<in>set (q @ [(Suc (rafCount s), cb)]). 0 < fst e \<and> fst e \<le> rafCount s'"
    by auto
  moreover from f assms(2,4)
  have "\<forall>e\<in>set (q @ [(Suc (rafCount s), cb)]). is_fade (snd e) \<longrightarrow> fadeRAF s' = Some (fst e)"
    by auto
  ultimately show ?thesis by (simp only: pending_ok_def)
qed

lemma pending_ok_register_fade:
  assumes "pending_ok q s" and "\<forall>e\<in>set q. \<not> is_fade (snd e)"
    and "rafCount s' = Suc (rafCount s)" and "fadeRAF s' = Some (Suc (rafCount s))"
  shows "pending_ok (q @ [(Suc (rafCount s), cb)]) s'"
proof -
  from assms(1) have b: "\<forall>e\<in>set q. 0 < fst e \<and> fst e \<le> rafCount s"
    and d: "distinct (map fst q)"
    by (simp_all add: pending_ok_def)
  from b have "Suc (rafCount s) \<notin> fst ` set q" by force
  with d have "distinct (map fst (q @ [(Suc (rafCount s), cb)]))" by simp
  moreover from b assms(3)
  have "\<forall>e\<in>set (q @ [(Suc (rafCount s), cb)]). 0 < fst e \<and> fst e \<le> rafCount s'"
    by auto
  moreover from assms(2,4)
  have "\<forall>e\<in>set (q @ [(Suc (rafCount s), cb)]). is_fade (snd e) \<longrightarrow> fadeRAF s' = Some (fst e)"
    by auto
  ultimately show ?thesis by (simp only: pending_ok_def)
qed

lemma pending_ok_step:
  assumes ok: "pending_ok (e # es @ rafQueue s) s"
    and run: "run_callback now (snd e) s = Some s'"
  shows "pending_ok (es @ rafQueue s') s'"
proof (cases "snd e")
  case (CamStep frm tgt dLng t0 ms easing)
  from ok have ok': "pending_ok (es @ rafQueue s) s" by (rule pending_ok_tail)
  from run CamStep obtain g where
    "s' = s\<lparr>globe := g\<rparr>
     \<or> s' = s\<lparr>globe := g,
              rafQueue := rafQueue s @ [(Suc (rafCount s), CamStep frm tgt dLng t0 ms easing)],
              rafCount := Suc (rafCount s)\<rparr>"
    using run_callback_CamStep by metis
  then show ?thesis
  proof
    assume s': "s' = s\<lparr>globe := g\<rparr>"
    have "pending_ok (es @ rafQueue s) s'" using ok' by (rule pending_ok_state) (simp_all add: s')
    then show ?thesis by (simp add: s')
  next
    assume s': "s' = s\<lparr>globe := g,
              rafQueue := rafQueue s @ [(Suc (rafCount s), CamStep frm tgt dLng t0 ms easing)],
              rafCount := Suc (rafCount s)\<rparr>"
    have "pending_ok ((es @ rafQueue s) @ [(Suc (rafCount s), CamStep frm tgt dLng t0 ms easing)]) s'"
      using ok' by (rule pending_ok_register) (simp_all add: s')
    then show ?thesis by (simp add: s')
  qed
next
  case (FadeTick t0 t1)
  from ok have ok': "pending_ok (es @ rafQueue s) s" by (rule pending_ok_tail)
  have t: "t0 + (t1 - t0) = t1" by simp
  from run_callback_FadeTick [of 0 t0 "t1 - t0" now s] obtain v where
    "run_callback now (FadeTick t0 t1) s = Some (s\<lparr>fadeT := v\<rparr>)
     \<or> run_callback now (FadeTick t0 t1) s =
         Some (s\<lparr>fadeT := v,
                 rafQueue := rafQueue s @ [(Suc (rafCount s), FadeTick t0 t1)],
                 rafCount := Suc (rafCount s),
                 fadeRAF := Some (Suc (rafCount s))\<rparr>)"
    unfolding add_0 t by blast
  with run FadeTick have s':
    "s' = s\<lparr>fadeT := v\<rparr>
     \<or> s' = s\<lparr>fadeT := v,
              rafQueue := rafQueue s @ [(Suc (rafCount s), FadeTick t0 t1)],
              rafCount := Suc (rafCount s),
              fadeRAF := Some (Suc (rafCount s))\<rparr>"
    by auto
  have e: "is_fade (snd e)" using FadeTick by simp
  have nofade: "\<forall>e'\<in>set (es @ rafQueue s). \<not> is_fade (snd e')"
  proof
    fix e' assume m: "e' \<in> set (es @ rafQueue s)"
    show "\<not> is_fade (snd e')"
    proof
      assume "is_fade (snd e')"
      with ok e m have "e' = e"
        using pending_ok_fade_unique [of "e # es @ rafQueue s" s e e'] by simp
      moreover from ok have "fst e \<notin> fst ` set (es @ rafQueue s)"
        by (auto simp: pending_ok_def)
      ultimately show False using m by blast
    qed
  qed
  from s' show ?thesis
  proof
    assume s1: "s' = s\<lparr>fadeT := v\<rparr>"
    have "pending_ok (es @ rafQueue s) s'" using ok' by (rule pending_ok_state) (simp_all add: s1)
    then show ?thesis by (simp add: s1)
  next
    assume s1: "s' = s\<lparr>fadeT := v,
              rafQueue := rafQueue s @ [(Suc (rafCount s), FadeTick t0 t1)],
              rafCount := Suc (rafCount s),
              fadeRAF := Some (Suc (rafCount s))\<rparr>"
    have "pending_ok ((es @ rafQueue s) @ [(Suc (rafCount s), FadeTick t0 t1)]) s'"
      using ok' nofade by (rule pending_ok_register_fade) (simp_all add: s1)
    then show ?thesis by (simp add: s1)
  qed
qed

lemma pending_ok_run_callbacks:
  "pending_ok (es @ rafQueue s) s \<Longrightarrow> run_callbacks now es s = Some s' \<Longrightarrow> app_inv s'"
proof (induction es arbitrary: s)
  case Nil
  then show ?case by (simp add: app_inv_def)
next
  case (Cons e es)
  from Cons.prems(2) obtain s1 where r: "run_callback now (snd e) s = Some s1"
    and rest: "run_callbacks now es s1 = Some s'"
    by (auto split: option.splits)
  from Cons.prems(1) r have "pending_ok (es @ rafQueue s1) s1"
    using pending_ok_step by simp
  then show ?case using rest by (rule Cons.IH)
qed

lemma app_inv_run_frame: "app_inv s \<Longrightarrow> run_frame now s = Some s' \<Longrightarrow> app_inv s'"
proof -
  assume i: "app_inv s" and r: "run_frame now s = Some s'"
  from i have "pending_ok (rafQueue s @ rafQueue (s\<lparr>rafQueue := []\<rparr>)) (s\<lparr>rafQueue := []\<rparr>)"
    by (simp add: app_inv_def pending_ok_def)
  moreover from r have "run_callbacks now (rafQueue s) (s\<lparr>rafQueue := []\<rparr>) = Some s'"
    by (simp add: run_frame_def)
  ultimately show "app_inv s'" by (rule pending_ok_run_callbacks)
qed

lemma app_inv_initial: "app_inv initial_app"
  by (simp add: app_inv_def pending_ok_def initial_app_def)

lemma app_inv_animatePOV: "app_inv s \<Longrightarrow> app_inv (animatePOV to ms easing now s)"
proof (cases "globe s")
  case None
  assume "app_inv s"
  with None show ?thesis by (simp add: animatePOV_def)
next
  case (Some frm)
  assume "app_inv s"
  then have "pending_ok (rafQueue s) s" by (simp add: app_inv_def)
  then have "pending_ok (rafQueue s @ [(Suc (rafCount s), CamStep frm to (dLng_of (lng to) (lng frm)) now ms easing)])
               (animatePOV to ms easing now s)"
    by (rule pending_ok_register)
       (simp_all add: Some animatePOV_def requestAnimationFrame_def Let_def)
  then show ?thesis by (simp add: app_inv_def animatePOV_queue [OF Some])
qed

lemma run_callback_queue_mono:
  assumes "run_callback now cb s = Some s'"
  shows "set (rafQueue s) \<subseteq> set (rafQueue s')"
proof (cases cb)
  case (CamStep frm tgt dLng t0 ms easing)
  with assms run_callback_CamStep show ?thesis by fastforce
next
  case (FadeTick t0 t1)
  have t: "t0 + (t1 - t0) = t1" by simp
  from run_callback_FadeTick [of 0 t0 "t1 - t0" now s] assms FadeTick
  show ?thesis unfolding add_0 t by auto
qed

lemma run_callbacks_queue_mono:
  "run_callbacks now es s = Some s' \<Longrightarrow> set (rafQueue s) \<subseteq> set (rafQueue s')"
proof (induction es arbitrary: s)
  case Nil
  then show ?case by simp
next
  case (Cons e es)
  from Cons.prems obtain s1 where r: "run_callback now (snd e) s = Some s1"
    and rest: "run_callbacks now es s1 = Some s'"
    by (auto split: option.splits)
  from r have "set (rafQueue s) \<subseteq> set (rafQueue s1)" by (rule run_callback_queue_mono)
  moreover from rest have "set (rafQueue s1) \<subseteq> set (rafQueue s')" by (rule Cons.IH)
  ultimately show ?case by blast
qed

lemma run_callbacks_fadeT_kept:
  "\<forall>e\<in>set es. \<not> is_fade (snd e) \<Longrightarrow> run_callbacks now es s = Some s' \<Longrightarrow>
   fadeT s' = fadeT s"
proof (induction es arbitrary: s)
  case Nil
  then show ?case by simp
next
  case (Cons e es)
  from Cons.prems(2) obtain s1 where r: "run_callback now (snd e) s = Some s1"
    and rest: "run_callbacks now es s1 = Some s'"
    by (auto split: option.splits)
  from Cons.prems(1) have "\<not> is_fade (snd e)" by simp
  then obtain frm tgt dLng t0 ms easing where "snd e = CamStep frm tgt dLng t0 ms easing"
    by (cases "snd e") auto
  with r run_callback_CamStep have "fadeT s1 = fadeT s" by fastforce
  moreover from Cons.prems(1) rest have "fadeT s' = fadeT s1" by (simp add: Cons.IH)
  ultimately show ?case by simp
qed

text \<open>
  A frame in which the \<open>tick\<close> of a session is pending leaves the output of that session
  in \<open>fadeT\<close>, whatever else runs in the frame.
\<close>

lemma run_callbacks_fadeT:
  assumes "pending_ok (es @ rafQueue s) s"
    and "(h, FadeTick (startTime + delayMs) (startTime + delayMs + durMs)) \<in> set es"
    and "run_callbacks now es s = Some s'"
  shows "Some (fadeT s') = fade_spec startTime delayMs durMs now
         \<and> (fade_continues startTime delayMs durMs now \<longrightarrow>
              (\<exists>h'. (h', FadeTick (startTime + delayMs) (startTime + delayMs + durMs))
                      \<in> set (rafQueue s')))"
  using assms
proof (induction es arbitrary: s)
  case Nil
  then show ?case by simp
next
  case (Cons e es)
  let ?tick = "FadeTick (startTime + delayMs) (startTime + delayMs + durMs)"
  from Cons.prems(3) obtain s1 where r: "run_callback now (snd e) s = Some s1"
    and rest: "run_callbacks now es s1 = Some s'"
    by (auto split: option.splits)
  from Cons.prems(1) r have ok1: "pending_ok (es @ rafQueue s1) s1"
    using pending_ok_step by simp
  show ?case
  proof (cases "e = (h, ?tick)")
    case True
    obtain v where v: "fade_spec startTime delayMs durMs now = Some v"
      using fade_spec_returns by blast
    from r True run_callback_FadeTick_eq [OF v, of s]
    have s1: "s1 = (if fade_continues startTime delayMs durMs now
                 then s\<lparr>fadeT := v,
                        rafQueue := rafQueue s @ [(Suc (rafCount s), ?tick)],
                        rafCount := Suc (rafCount s),
                        fadeRAF := Some (Suc (rafCount s))\<rparr>
                 else s\<lparr>fadeT := v\<rparr>)"
      by simp
    have nofade: "\<forall>e'\<in>set es. \<not> is_fade (snd e')"
    proof
      fix e' assume m: "e' \<in> set es"
      show "\<not> is_fade (snd e')"
      proof
        assume "is_fade (snd e')"
        with Cons.prems(1) True m have "e' = e"
          using pending_ok_fade_unique [of "e # es @ rafQueue s" s e e'] by simp
        moreover from Cons.prems(1) have "fst e \<notin> fst ` set es"
          by (auto simp: pending_ok_def)
        ultimately show False using m by blast
      qed
    qed
    from nofade rest have "fadeT s' = fadeT s1" by (rule run_callbacks_fadeT_kept)
    moreover from s1 have "fadeT s1 = v" by (simp split: if_splits)
    moreover from rest have "set (rafQueue s1) \<subseteq> set (rafQueue s')"
      by (rule run_callbacks_queue_mono)
    moreover from s1 have "fade_continues startTime delayMs durMs now \<longrightarrow>
        (Suc (rafCount s), ?tick) \<in> set (rafQueue s1)"
      by simp
    ultimately show ?thesis using v by auto
  next
    case False
    with Cons.prems(2) have m: "(h, ?tick) \<in> set es" by simp
    from ok1 m rest show ?thesis by (rule Cons.IH)
  qed
qed

lemma cancel_removes_fades:
  assumes "pending_ok q s" and "fadeRAF s = Some h"
  shows "\<forall>e\<in>set (filter (\<lambda>e. fst e \<noteq> h) q). \<not> is_fade (snd e)"
  using assms by (auto simp: pending_ok_def)

lemma no_handle_no_fades:
  assumes "pending_ok q s" and "fadeRAF s = None \<or> fadeRAF s = Some 0"
  shows "\<forall>e\<in>set q. \<not> is_fade (snd e)"
  using assms by (fastforce simp: pending_ok_def)

lemma pending_ok_filter: "pending_ok q s \<Longrightarrow> pending_ok (filter P q) s"
  by (simp add: pending_ok_def distinct_map_filter)

text \<open>The state in which \<open>startEasedFade\<close> registers its \<open>tick\<close>.\<close>

lemma startEasedFade_eq:
  "startEasedFade delayMs durMs startTime s =
     (let q = (case fadeRAF s of
                 None \<Rightarrow> rafQueue s
               | Some h \<Rightarrow> if h \<noteq> 0 then filter (\<lambda>e. fst e \<noteq> h) (rafQueue s) else rafQueue s)
      in s\<lparr>rafQueue := q @ [(Suc (rafCount s),
                               FadeTick (startTime + delayMs) (startTime + delayMs + durMs))],
            rafCount := Suc (rafCount s),
            fadeRAF := Some (Suc (rafCount s))\<rparr>)"
  by (simp add: startEasedFade_def requestAnimationFrame_def cancelAnimationFrame_def Let_def
      split: option.splits)

lemma startEasedFade_pending:
  assumes "app_inv s"
  shows "filter (\<lambda>e. is_fade (snd e)) (rafQueue (startEasedFade delayMs durMs startTime s)) =
           [(Suc (rafCount s), FadeTick (startTime + delayMs) (startTime + delayMs + durMs))]
         \<and> app_inv (startEasedFade delayMs durMs startTime s)"
proof -
  let ?q = "case fadeRAF s of
              None \<Rightarrow> rafQueue s
            | Some h \<Rightarrow> if h \<noteq> 0 then filter (\<lambda>e. fst e \<noteq> h) (rafQueue s) else rafQueue s"
  let ?s' = "startEasedFade delayMs durMs startTime s"
  from assms have ok: "pending_ok (rafQueue s) s" by (simp add: app_inv_def)
  have okq: "pending_ok ?q s"
    using ok by (auto simp: pending_ok_filter split: option.splits)
  have nofade: "\<forall>e\<in>set ?q. \<not> is_fade (snd e)"
  proof (cases "fadeRAF s")
    case None
    with ok no_handle_no_fades [of "rafQueue s" s] show ?thesis by simp
  next
    case (Some h)
    show ?thesis
    proof (cases "h = 0")
      case True
      with Some ok no_handle_no_fades [of "rafQueue s" s] show ?thesis by simp
    next
      case False
      with Some ok cancel_removes_fades [of "rafQueue s" s h] show ?thesis by simp
    qed
  qed
  have q': "rafQueue ?s' =
      ?q @ [(Suc (rafCount s), FadeTick (startTime + delayMs) (startTime + delayMs + durMs))]"
    by (simp add: startEasedFade_eq Let_def)
  from nofade have "filter (\<lambda>e. is_fade (snd e)) ?q = []" by (simp add: filter_empty_conv)
  with q' have one: "filter (\<lambda>e. is_fade (snd e)) (rafQueue ?s') =
      [(Suc (rafCount s), FadeTick (startTime + delayMs) (startTime + delayMs + durMs))]"
    by simp
  have "pending_ok (?q @ [(Suc (rafCount s),
          FadeTick (startTime + delayMs) (startTime + delayMs + durMs))]) ?s'"
    using okq nofade by (rule pending_ok_register_fade) (simp_all add: startEasedFade_eq Let_def)
  with q' have "app_inv ?s'" by (simp add: app_inv_def)
  with one show ?thesis by simp
qed

lemma reachable_app_inv: "reachable s \<Longrightarrow> app_inv s"
proof (induction rule: reachable.induct)
  case reach_initial
  show ?case by (rule app_inv_initial)
next
  case (reach_animatePOV s tgt ms easing now)
  then show ?case by (simp add: app_inv_animatePOV)
next
  case (reach_startEasedFade s delayMs durMs now)
  then show ?case by (simp add: startEasedFade_pending)
next
  case (reach_frame s now s')
  then show ?case by (simp add: app_inv_run_frame)
next
  case (reach_globe s g)
  then show ?case by (simp add: app_inv_def pending_ok_def)
qed

text \<open>
  Claim C7: a fade session started by \<open>startEasedFade\<close> at \<open>startTime\<close>, for every delay and
  duration, puts \<open>0\<close> into \<open>fadeT\<close> at every frame earlier than \<open>startTime + delay\<close> and
  afterwards the easing curve at the progress \<open>(now - (startTime + delay)) / duration\<close>
  clamped to \<open>[0, 1]\<close>; and starting the session cancels the pending \<open>tick\<close> of any
  earlier session before it registers its own, which then is the only \<open>tick\<close> pending.
  The invariant \<open>app_inv\<close> holds in every reachable state; \<open>s1\<close> is any state, and in the
  last part any state in which the \<open>tick\<close> of the session is pending when a frame begins.
\<close>

theorem startEasedFade_session:
  assumes "app_inv s"
  shows "filter (\<lambda>e. is_fade (snd e)) (rafQueue (startEasedFade delayMs durMs startTime s)) =
           [(Suc (rafCount s), FadeTick (startTime + delayMs) (startTime + delayMs + durMs))]
         \<and> fadeRAF (startEasedFade delayMs durMs startTime s) = Some (Suc (rafCount s))
         \<and> app_inv (startEasedFade delayMs durMs startTime s)
         \<and> (\<exists>s'. run_callback now
                    (FadeTick (startTime + delayMs) (startTime + delayMs + durMs)) s1 = Some s'
                  \<and> Some (fadeT s') = fade_spec startTime delayMs durMs now)
         \<and> (app_inv s1
              \<and> (h, FadeTick (startTime + delayMs) (startTime + delayMs + durMs)) \<in> set (rafQueue s1)
              \<and> run_frame now s1 = Some s2 \<longrightarrow>
              Some (fadeT s2) = fade_spec startTime delayMs durMs now
              \<and> app_inv s2
              \<and> (fade_continues startTime delayMs durMs now \<longrightarrow>
                   (\<exists>h'. (h', FadeTick (startTime + delayMs) (startTime + delayMs + durMs))
                           \<in> set (rafQueue s2))))"
proof -
  obtain v where v: "fade_spec startTime delayMs durMs now = Some v"
    using fade_spec_returns by blast
  have tick: "\<exists>s'. run_callback now
                    (FadeTick (startTime + delayMs) (startTime + delayMs + durMs)) s1 = Some s'
                  \<and> Some (fadeT s') = fade_spec startTime delayMs durMs now"
    using v run_callback_FadeTick_eq [OF v, of s1]
    by (cases "fade_continues startTime delayMs durMs now") simp_all
  have frame: "app_inv s1
              \<and> (h, FadeTick (startTime + delayMs) (startTime + delayMs + durMs)) \<in> set (rafQueue s1)
              \<and> run_frame now s1 = Some s2 \<longrightarrow>
              Some (fadeT s2) = fade_spec startTime delayMs durMs now
              \<and> app_inv s2
              \<and> (fade_continues startTime delayMs durMs now \<longrightarrow>
                   (\<exists>h'. (h', FadeTick (startTime + delayMs) (startTime + delayMs + durMs))
                           \<in> set (rafQueue s2)))"
  proof (intro impI, elim conjE)
    assume i: "app_inv s1"
      and m: "(h, FadeTick (startTime + delayMs) (startTime + delayMs + durMs)) \<in> set (rafQueue s1)"
      and r: "run_frame now s1 = Some s2"
    from i have a: "pending_ok (rafQueue s1 @ rafQueue (s1\<lparr>rafQueue := []\<rparr>)) (s1\<lparr>rafQueue := []\<rparr>)"
      by (simp add: app_inv_def pending_ok_def)
    from r have b: "run_callbacks now (rafQueue s1) (s1\<lparr>rafQueue := []\<rparr>) = Some s2"
      by (simp add: run_frame_def)
    have "Some (fadeT s2) = fade_spec startTime delayMs durMs now
         \<and> (fade_continues startTime delayMs durMs now \<longrightarrow>
              (\<exists>h'. (h', FadeTick (startTime + delayMs) (startTime + delayMs + durMs))
                      \<in> set (rafQueue s2)))"
      by (rule run_callbacks_fadeT [OF a m b])
    moreover from i r have "app_inv s2" by (rule app_inv_run_frame)
    ultimately show "Some (fadeT s2) = fade_spec startTime delayMs durMs now
              \<and> app_inv s2
              \<and> (fade_continues startTime delayMs durMs now \<longrightarrow>
                   (\<exists>h'. (h', FadeTick (startTime + delayMs) (startTime + delayMs + durMs))
                           \<in> set (rafQueue s2)))"
      by simp
  qed
  have "fadeRAF (startEasedFade delayMs durMs startTime s) = Some (Suc (rafCount s))"
    by (simp add: startEasedFade_eq Let_def)
  with startEasedFade_pending [OF assms, of delayMs durMs startTime] tick frame
  show ?thesis by simp
qed
theorem startEasedFade_session_witness:
  "app_inv (startEasedFade 500 1000 0 initial_app)
   \<and> rafQueue (startEasedFade 500 1000 0 initial_app) = [(1, FadeTick 500 1500)]
   \<and> filter (\<lambda>e. is_fade (snd e))
        (rafQueue (startEasedFade 500 1000 100 (startEasedFade 500 1000 0 initial_app))) =
       [(2, FadeTick 600 1600)]
   \<and> (\<exists>s2. run_frame 300 (startEasedFade 500 1000 100 (startEasedFade 500 1000 0 initial_app))
             = Some s2 \<and> fadeT s2 = Num 0 \<and> rafQueue s2 = [(3, FadeTick 600 1600)])
   \<and> (\<exists>s2. run_frame 2000 (startEasedFade 500 1000 100 (startEasedFade 500 1000 0 initial_app))
             = Some s2 \<and> fadeT s2 = Num 1 \<and> rafQueue s2 = [])"
proof -
  let ?s = "startEasedFade 500 1000 0 initial_app"
  let ?s1 = "startEasedFade 500 1000 100 ?s"
  have inv: "app_inv ?s"
    by (simp add: app_inv_def pending_ok_def startEasedFade_eq initial_app_def)
  have q: "rafQueue ?s = [(1, FadeTick 500 1500)]"
    by (simp add: startEasedFade_eq initial_app_def)
  have c: "rafCount ?s = 1"
    by (simp add: startEasedFade_eq initial_app_def)
  have q1: "rafQueue ?s1 = [(2, FadeTick 600 1600)]"
    by (simp add: startEasedFade_eq initial_app_def)
  obtain a where a: "run_frame 300 ?s1 = Some a" and qa: "rafQueue a = [(3, FadeTick 600 1600)]"
    by (simp add: run_frame_def startEasedFade_eq initial_app_def requestAnimationFrame_def)
  obtain b where b: "run_frame 2000 ?s1 = Some b" and qb: "rafQueue b = []"
    by (simp add: run_frame_def startEasedFade_eq initial_app_def requestAnimationFrame_def
        easeCB_at_1)
  have f: "filter (\<lambda>e. is_fade (snd e)) (rafQueue ?s1) = [(2, FadeTick 600 1600)]"
    and i1: "app_inv ?s1"
    and fa: "Some (fadeT a) = fade_spec 100 500 1000 300"
    using startEasedFade_session [OF inv, of 500 1000 100 300 ?s1 2 a] a q1 c by simp_all
  have fb: "Some (fadeT b) = fade_spec 100 500 1000 2000"
    using startEasedFade_session [OF inv, of 500 1000 100 2000 ?s1 2 b] b q1 by simp
  from fa have "fadeT a = Num 0" by (simp add: fade_spec_def)
  moreover from fb have "fadeT b = Num 1" by (simp add: fade_spec_def clamp01_Num easeCB_at_1)
  ultimately show ?thesis using inv q f a qa b qb by simp
qed

section \<open>Properties of the region classifier\<close>

lemma iso_loop_find:
  "iso_loop isoU gs = map_option fst (find (\<lambda>kg. isoU \<in> set (iso3 (snd kg))) gs)"
  by (induction gs) simp_all

lemma name_in_set: "name_in nameN nms \<longleftrightarrow> nameN \<in> set (map (\<lambda>nm. norm_str (Some nm)) nms)"
  by (induction nms) auto

lemma name_loop_find:
  "name_loop nameN gs =
     map_option fst
       (find (\<lambda>kg. nameN \<in> set (map (\<lambda>nm. norm_str (Some nm)) (names (snd kg)))) gs)"
  by (induction gs) (simp_all add: name_in_set)

lemma includes_str_sublist: "includes_str s pat \<longleftrightarrow> sublist pat s"
  by (induction s) (simp_all add: sublist_Cons_right)

lemma is_alnum_all: "\<forall>c. is_alnum c = alnum_spec c"
  by code_simp

lemma is_alnum_spec: "is_alnum c = alnum_spec c"
  using is_alnum_all by blast

lemma is_space_all: "\<forall>c. is_alnum c \<or> c = CHR '' '' \<longrightarrow> is_space c = (c = CHR '' '')"
  by code_simp

lemma nfkd_strip_all:
  "\<forall>c. \<not> plain [c] \<or>
     (case nfkd_strip_char (toLowerCase_char c) of
        [d] \<Rightarrow> d = strip_diacritic_spec (lower_spec c)
                 \<or> \<not> is_alnum d \<and> \<not> is_alnum (strip_diacritic_spec (lower_spec c))
      | _ \<Rightarrow> False)"
  by code_simp

lemma nfkd_strip_plain:
  assumes "plain [c]"
  obtains d where "nfkd_strip_char (toLowerCase_char c) = [d]"
    and "d = strip_diacritic_spec (lower_spec c)
         \<or> \<not> is_alnum d \<and> \<not> is_alnum (strip_diacritic_spec (lower_spec c))"
proof -
  from nfkd_strip_all assms
  have "case nfkd_strip_char (toLowerCase_char c) of
        [d] \<Rightarrow> d = strip_diacritic_spec (lower_spec c)
                 \<or> \<not> is_alnum d \<and> \<not> is_alnum (strip_diacritic_spec (lower_spec c))
      | _ \<Rightarrow> False" by blast
  then show thesis using that by (auto split: list.splits)
qed

lemma squeeze_collapse:
  "squeeze False s = collapse_spec s
   \<and> squeeze True s = collapse_spec (dropWhile (\<lambda>d. \<not> alnum_spec d) s)"
  by (induction s) (simp_all add: is_alnum_spec)

lemma squeeze_rel:
  "list_all2 (\<lambda>a b. a = b \<or> \<not> is_alnum a \<and> \<not> is_alnum b) u v \<Longrightarrow> squeeze r u = squeeze r v"
  by (induction u v arbitrary: r rule: list_all2_induct) auto

lemma nfkd_strip_rel:
  "plain s \<Longrightarrow>
     list_all2 (\<lambda>a b. a = b \<or> \<not> is_alnum a \<and> \<not> is_alnum b)
       (concat (map nfkd_strip_char (toLowerCase s)))
       (map (\<lambda>c. strip_diacritic_spec (lower_spec c)) s)"
proof (induction s)
  case Nil
  show ?case by (simp add: toLowerCase_def)
next
  case (Cons c s)
  from Cons.prems have "plain [c]" and "plain s" by (simp_all add: plain_def)
  from \<open>plain [c]\<close> obtain d where "nfkd_strip_char (toLowerCase_char c) = [d]"
    and "d = strip_diacritic_spec (lower_spec c)
         \<or> \<not> is_alnum d \<and> \<not> is_alnum (strip_diacritic_spec (lower_spec c))"
    by (rule nfkd_strip_plain)
  with Cons.IH [OF \<open>plain s\<close>] show ?case by (simp add: toLowerCase_def)
qed

lemma squeeze_chars: "c \<in> set (squeeze r s) \<Longrightarrow> is_alnum c \<or> c = CHR '' ''"
  by (induction s arbitrary: r) (auto split: if_splits)

lemma trim_spaces:
  assumes "\<And>c. c \<in> set t \<Longrightarrow> is_space c = (c = CHR '' '')"
  shows "trim t = trim_spec t"
proof -
  have a: "dropWhile is_space t = dropWhile (\<lambda>c. c = CHR '' '') t"
    using assms by (intro dropWhile_cong) simp_all
  have "dropWhile is_space (rev (dropWhile (\<lambda>c. c = CHR '' '') t))
        = dropWhile (\<lambda>c. c = CHR '' '') (rev (dropWhile (\<lambda>c. c = CHR '' '') t))"
    using assms by (intro dropWhile_cong) (auto dest: set_dropWhileD)
  with a show ?thesis by (simp add: trim_def trim_spec_def)
qed

lemma norm_str_spec: "plain s \<Longrightarrow> norm_str (Some s) = norm_spec s"
proof -
  assume "plain s"
  then have "squeeze False (concat (map nfkd_strip_char (toLowerCase s)))
             = squeeze False (map (\<lambda>c. strip_diacritic_spec (lower_spec c)) s)"
    by (intro squeeze_rel nfkd_strip_rel)
  also have "\<dots> = collapse_spec (map (\<lambda>c. strip_diacritic_spec (lower_spec c)) s)"
    using squeeze_collapse by blast
  finally have e: "squeeze False (concat (map nfkd_strip_char (toLowerCase s)))
             = collapse_spec (map (\<lambda>c. strip_diacritic_spec (lower_spec c)) s)" .
  have "trim (squeeze False (concat (map nfkd_strip_char (toLowerCase s))))
        = trim_spec (squeeze False (concat (map nfkd_strip_char (toLowerCase s))))"
    using squeeze_chars is_space_all by (intro trim_spaces) blast
  with e show ?thesis by (simp add: norm_str_def norm_spec_def)
qed

lemma norm_str_None: "norm_str None = norm_spec []"
  by code_simp

lemma GROUPS_plain: "\<forall>kg\<in>set GROUPS. \<forall>nm\<in>set (names (snd kg)). plain nm"
  by code_simp

lemma GROUPS_norm:
  "kg \<in> set GROUPS \<Longrightarrow>
     map (\<lambda>nm. norm_str (Some nm)) (names (snd kg)) = map norm_spec (names (snd kg))"
  using GROUPS_plain by (auto simp: norm_str_spec)

lemma find_GROUPS_norm:
  "find (\<lambda>kg. n \<in> set (map (\<lambda>nm. norm_str (Some nm)) (names (snd kg)))) GROUPS
   = find (\<lambda>kg. n \<in> set (map norm_spec (names (snd kg)))) GROUPS"
  by (rule find_cong) (simp_all only: GROUPS_norm)

lemma groupId_spec:
  assumes "plain (case getFeatName f of None \<Rightarrow> [] | Some v \<Rightarrow> v)"
  shows "groupId f = classify_spec f"
proof -
  have "norm_str (getFeatName f) = norm_spec (case getFeatName f of None \<Rightarrow> [] | Some v \<Rightarrow> v)"
    using assms by (cases "getFeatName f") (simp_all add: norm_str_None norm_str_spec)
  then show ?thesis
    unfolding groupId_def classify_spec_def Let_def iso_loop_find name_loop_find
      find_GROUPS_norm includes_str_sublist
    by (simp split: option.splits)
qed

lemma getFeatISO3_first: "props f ''ISO_A3'' = Some (c # cs) \<Longrightarrow> getFeatISO3 f = Some (c # cs)"
  by (simp add: getFeatISO3_def)

lemma iso_USA: "iso_loop (toUpperCase ''USA'') GROUPS = Some USA"
  by code_simp

lemma iso_empty: "iso_loop (toUpperCase []) GROUPS = None"
  by code_simp

lemma name_UK_long:
  "name_loop (norm_str (Some ''United Kingdom of Great Britain and Northern Ireland'')) GROUPS
     = Some GBR"
  by code_simp

lemma name_Ruritania: "name_loop (norm_str (Some ''Ruritania'')) GROUPS = None"
  by code_simp

lemma name_CANADA: "name_loop (norm_str (Some ''CANADA'')) GROUPS = Some CAN"
  by code_simp

lemma name_united_states: "name_loop (norm_str (Some ''  united   states '')) GROUPS = Some USA"
  by code_simp

lemma name_China_grave: "name_loop (norm_str (Some (''Chin'' @ [CHR 0xE0]))) GROUPS = Some CHN"
  by code_simp

lemma name_UK_1801: "name_loop (norm_str (Some ''The United-Kingdom (1801)'')) GROUPS = None"
  by code_simp

lemma heuristic_UK_1801:
  "includes_str (norm_str (Some ''The United-Kingdom (1801)'')) ''united kingdom''"
  by code_simp

lemma heuristic_Ruritania:
  "\<not> includes_str (norm_str (Some ''Ruritania'')) ''united kingdom''"
  "\<not> includes_str (norm_str (Some ''Ruritania'')) ''great britain''"
  by code_simp+

lemma groupId_no_iso:
  assumes "getFeatISO3 f = None \<or> getFeatISO3 f = Some []"
  shows "groupId f =
     (case name_loop (norm_str (getFeatName f)) GROUPS of
        Some key \<Rightarrow> Some key
      | None \<Rightarrow>
          if includes_str (norm_str (getFeatName f)) ''united kingdom''
             \<or> includes_str (norm_str (getFeatName f)) ''great britain''
          then Some GBR else None)"
  using assms iso_empty by (auto simp: groupId_def Let_def)

text \<open>
  Claim C6: \<open>groupId\<close> tries the ISO code first, then the equality of the normalised name
  with a normalised name of a group, then the two substrings, and otherwise finds no
  group, where normalising is what the specification says: lowercase, strip diacritics,
  collapse non-alphanumerics to single spaces, trim. This holds for every feature whose
  name is plain. A feature with \<open>ISO_A3 = "USA"\<close> is in the group \<open>USA\<close>; without an ISO
  code, the name "United Kingdom of Great Britain and Northern Ireland" is in the group
  \<open>GBR\<close> and the name "Ruritania" is in no group. Four more names show each step of the
  normalisation at work: "CANADA" is in \<open>CAN\<close>, "  united   states " in \<open>USA\<close>, "China"
  written with a grave accent on its last letter in \<open>CHN\<close>, and
  "The United-Kingdom (1801)", which no alias equals, in \<open>GBR\<close> by the substring.
\<close>

theorem groupId_lookup_order:
  "(plain (case getFeatName f of None \<Rightarrow> [] | Some v \<Rightarrow> v) \<longrightarrow> groupId f = classify_spec f)
   \<and> (props f ''ISO_A3'' = Some ''USA'' \<longrightarrow> groupId f = Some USA)
   \<and> ((getFeatISO3 f = None \<or> getFeatISO3 f = Some [])
        \<and> getFeatName f = Some ''United Kingdom of Great Britain and Northern Ireland''
        \<longrightarrow> groupId f = Some GBR)
   \<and> ((getFeatISO3 f = None \<or> getFeatISO3 f = Some [])
        \<and> getFeatName f = Some ''Ruritania'' \<longrightarrow> groupId f = None)
   \<and> ((getFeatISO3 f = None \<or> getFeatISO3 f = Some [])
        \<and> getFeatName f = Some ''CANADA'' \<longrightarrow> groupId f = Some CAN)
   \<and> ((getFeatISO3 f = None \<or> getFeatISO3 f = Some [])
        \<and> getFeatName f = Some ''  united   states '' \<longrightarrow> groupId f = Some USA)
   \<and> ((getFeatISO3 f = None \<or> getFeatISO3 f = Some [])
        \<and> getFeatName f = Some (''Chin'' @ [CHR 0xE0]) \<longrightarrow> groupId f = Some CHN)
   \<and> ((getFeatISO3 f = None \<or> getFeatISO3 f = Some [])
        \<and> getFeatName f = Some ''The United-Kingdom (1801)'' \<longrightarrow> groupId f = Some GBR)"
proof (intro conjI impI)
  assume "plain (case getFeatName f of None \<Rightarrow> [] | Some v \<Rightarrow> v)"
  then show "groupId f = classify_spec f" by (rule groupId_spec)
next
  assume "props f ''ISO_A3'' = Some ''USA''"
  then have "getFeatISO3 f = Some ''USA''" by (rule getFeatISO3_first)
  then show "groupId f = Some USA" by (simp add: groupId_def iso_USA)
next
  assume a: "(getFeatISO3 f = None \<or> getFeatISO3 f = Some [])
        \<and> getFeatName f = Some ''United Kingdom of Great Britain and Northern Ireland''"
  then have "getFeatISO3 f = None \<or> getFeatISO3 f = Some []" by simp
  from groupId_no_iso [OF this] a show "groupId f = Some GBR" by (simp add: name_UK_long)
next
  assume a: "(getFeatISO3 f = None \<or> getFeatISO3 f = Some [])
        \<and> getFeatName f = Some ''Ruritania''"
  then have "getFeatISO3 f = None \<or> getFeatISO3 f = Some []" by simp
  from groupId_no_iso [OF this] a show "groupId f = None"
    by (simp add: name_Ruritania heuristic_Ruritania)
next
  assume a: "(getFeatISO3 f = None \<or> getFeatISO3 f = Some [])
        \<and> getFeatName f = Some ''CANADA''"
  then have "getFeatISO3 f = None \<or> getFeatISO3 f = Some []" by simp
  from groupId_no_iso [OF this] a show "groupId f = Some CAN" by (simp add: name_CANADA)
next
  assume a: "(getFeatISO3 f = None \<or> getFeatISO3 f = Some [])
        \<and> getFeatName f = Some ''  united   states ''"
  then have "getFeatISO3 f = None \<or> getFeatISO3 f = Some []" by simp
  from groupId_no_iso [OF this] a show "groupId f = Some USA"
    by (simp add: name_united_states)
next
  assume a: "(getFeatISO3 f = None \<or> getFeatISO3 f = Some [])
        \<and> getFeatName f = Some (''Chin'' @ [CHR 0xE0])"
  then have "getFeatISO3 f = None \<or> getFeatISO3 f = Some []" by simp
  from groupId_no_iso [OF this] a name_China_grave show "groupId f = Some CHN" by simp
next
  assume a: "(getFeatISO3 f = None \<or> getFeatISO3 f = Some [])
        \<and> getFeatName f = Some ''The United-Kingdom (1801)''"
  then have "getFeatISO3 f = None \<or> getFeatISO3 f = Some []" by simp
  from groupId_no_iso [OF this] a show "groupId f = Some GBR"
    by (simp add: name_UK_1801 heuristic_UK_1801)
qed

theorem groupId_lookup_order_witness:
  "groupId \<lparr>geometry = Polygon [], properties = Some (map_of [(''ISO_A3'', ''USA'')])\<rparr> = Some USA
   \<and> groupId \<lparr>geometry = Polygon [], properties = Some (map_of
        [(''name'', ''United Kingdom of Great Britain and Northern Ireland'')])\<rparr> = Some GBR
   \<and> groupId \<lparr>geometry = Polygon [], properties = Some (map_of [(''NAME'', ''Ruritania'')])\<rparr>
       = None
   \<and> groupId \<lparr>geometry = Polygon [], properties = Some (map_of [(''name'', ''CANADA'')])\<rparr>
       = Some CAN
   \<and> groupId \<lparr>geometry = Polygon [],
               properties = Some (map_of [(''name'', ''  united   states '')])\<rparr> = Some USA
   \<and> groupId \<lparr>geometry = Polygon [],
               properties = Some (map_of [(''name'', ''Chin'' @ [CHR 0xE0])])\<rparr> = Some CHN
   \<and> classify_spec \<lparr>geometry = Polygon [],
               properties = Some (map_of [(''name'', ''Chin'' @ [CHR 0xE0])])\<rparr> = Some CHN
   \<and> groupId \<lparr>geometry = Polygon [],
               properties = Some (map_of [(''name'', ''The United-Kingdom (1801)'')])\<rparr>
       = Some GBR
   \<and> classify_spec \<lparr>geometry = Polygon [],
               properties = Some (map_of [(''name'', ''The United-Kingdom (1801)'')])\<rparr>
       = Some GBR"
proof -
  let ?a = "\<lparr>geometry = Polygon [], properties = Some (map_of [(''ISO_A3'', ''USA'')])\<rparr>"
  let ?b = "\<lparr>geometry = Polygon [], properties = Some (map_of
        [(''name'', ''United Kingdom of Great Britain and Northern Ireland'')])\<rparr>"
  let ?c = "\<lparr>geometry = Polygon [], properties = Some (map_of [(''NAME'', ''Ruritania'')])\<rparr>"
  let ?d = "\<lparr>geometry = Polygon [], properties = Some (map_of [(''name'', ''CANADA'')])\<rparr>"
  let ?e = "\<lparr>geometry = Polygon [],
             properties = Some (map_of [(''name'', ''  united   states '')])\<rparr>"
  let ?g = "\<lparr>geometry = Polygon [],
             properties = Some (map_of [(''name'', ''Chin'' @ [CHR 0xE0])])\<rparr>"
  let ?h = "\<lparr>geometry = Polygon [],
             properties = Some (map_of [(''name'', ''The United-Kingdom (1801)'')])\<rparr>"
  have "props ?a ''ISO_A3'' = Some ''USA''" by (simp add: props_def)
  with groupId_lookup_order [of ?a] have a: "groupId ?a = Some USA" by blast
  have "getFeatISO3 ?b = None"
    and "getFeatName ?b = Some ''United Kingdom of Great Britain and Northern Ireland''"
    by (simp_all add: getFeatISO3_def getFeatName_def props_def)
  with groupId_lookup_order [of ?b] have b: "groupId ?b = Some GBR" by blast
  have "getFeatISO3 ?c = None" and "getFeatName ?c = Some ''Ruritania''"
    by (simp_all add: getFeatISO3_def getFeatName_def props_def)
  with groupId_lookup_order [of ?c] have c: "groupId ?c = None" by blast
  have "getFeatISO3 ?d = None" and "getFeatName ?d = Some ''CANADA''"
    by (simp_all add: getFeatISO3_def getFeatName_def props_def)
  with groupId_lookup_order [of ?d] have d: "groupId ?d = Some CAN" by blast
  have "getFeatISO3 ?e = None" and "getFeatName ?e = Some ''  united   states ''"
    by (simp_all add: getFeatISO3_def getFeatName_def props_def)
  with groupId_lookup_order [of ?e] have e: "groupId ?e = Some USA" by blast
  have ng: "getFeatISO3 ?g = None" "getFeatName ?g = Some (''Chin'' @ [CHR 0xE0])"
    by (simp_all add: getFeatISO3_def getFeatName_def props_def)
  with groupId_lookup_order [of ?g] have g: "groupId ?g = Some CHN" by blast
  have "plain (''Chin'' @ [CHR 0xE0])" by code_simp
  with ng have "plain (case getFeatName ?g of None \<Rightarrow> [] | Some v \<Rightarrow> v)" by simp
  with groupId_lookup_order [of ?g] have "groupId ?g = classify_spec ?g" by blast
  with g have g': "classify_spec ?g = Some CHN" by simp
  have nh: "getFeatISO3 ?h = None" "getFeatName ?h = Some ''The United-Kingdom (1801)''"
    by (simp_all add: getFeatISO3_def getFeatName_def props_def)
  with groupId_lookup_order [of ?h] have h: "groupId ?h = Some GBR" by blast
  have "plain ''The United-Kingdom (1801)''" by code_simp
  with nh have "plain (case getFeatName ?h of None \<Rightarrow> [] | Some v \<Rightarrow> v)" by simp
  with groupId_lookup_order [of ?h] have "groupId ?h = classify_spec ?h" by blast
  with h have h': "classify_spec ?h = Some GBR" by simp
  from a b c d e g g' h h' show ?thesis by simp
qed

lemma GROUPS_iso_cases:
  assumes "kg \<in> set GROUPS" and "code \<in> set (iso3 (snd kg))"
  shows "(fst kg = CAN \<and> code = ''CAN'') \<or> (fst kg = USA \<and> code = ''USA'')
         \<or> (fst kg = GBR \<and> code = ''GBR'') \<or> (fst kg = CHN \<and> code = ''CHN'')
         \<or> (fst kg = AUS \<and> code = ''AUS'')"
  using assms by (auto simp: GROUPS_def)

lemma iso_loop_codes:
  "iso_loop ''CAN'' GROUPS = Some CAN" "iso_loop ''USA'' GROUPS = Some USA"
  "iso_loop ''GBR'' GROUPS = Some GBR" "iso_loop ''CHN'' GROUPS = Some CHN"
  "iso_loop ''AUS'' GROUPS = Some AUS"
  by code_simp+

lemma toUpperCase_codes:
  "toUpperCase ''CAN'' = ''CAN''" "toUpperCase ''USA'' = ''USA''"
  "toUpperCase ''GBR'' = ''GBR''" "toUpperCase ''CHN'' = ''CHN''"
  "toUpperCase ''AUS'' = ''AUS''"
  by code_simp+

lemma groupId_iso:
  assumes "getFeatISO3 f = Some s" and "kg \<in> set GROUPS"
    and "toUpperCase s \<in> set (iso3 (snd kg))"
  shows "groupId f = Some (fst kg)"
  using GROUPS_iso_cases [OF assms(2,3)] assms(1)
  by (auto simp: groupId_def iso_loop_codes)

text \<open>
  Claim C10: the ISO code is compared in upper case, so a feature whose ISO property is
  a case variant \<open>s\<close> of a listed code is in the same group as a feature that carries the
  code in upper case.
\<close>

theorem groupId_iso_case_insensitive:
  assumes "getFeatISO3 f = Some s" and "getFeatISO3 f' = Some (toUpperCase s)"
    and "kg \<in> set GROUPS" and "toUpperCase s \<in> set (iso3 (snd kg))"
  shows "groupId f = Some (fst kg) \<and> groupId f' = groupId f"
proof -
  have a: "groupId f = Some (fst kg)" using assms(1,3,4) by (rule groupId_iso)
  from GROUPS_iso_cases [OF assms(3,4)]
  have "toUpperCase (toUpperCase s) = toUpperCase s" by (auto simp: toUpperCase_codes)
  with assms(4) have "toUpperCase (toUpperCase s) \<in> set (iso3 (snd kg))" by simp
  with assms(2,3) have "groupId f' = Some (fst kg)" by (rule groupId_iso)
  with a show ?thesis by simp
qed

theorem groupId_iso_case_insensitive_witness:
  "groupId \<lparr>geometry = Polygon [], properties = Some (map_of [(''iso_a3'', ''Usa'')])\<rparr> = Some USA
   \<and> groupId \<lparr>geometry = Polygon [], properties = Some (map_of [(''ISO_A3'', ''USA'')])\<rparr>
       = Some USA"
proof -
  let ?f = "\<lparr>geometry = Polygon [], properties = Some (map_of [(''iso_a3'', ''Usa'')])\<rparr>"
  let ?f' = "\<lparr>geometry = Polygon [], properties = Some (map_of [(''ISO_A3'', ''USA'')])\<rparr>"
  let ?kg = "(USA, \<lparr>iso3 = [''USA''],
                     names = [''United States of America'', ''United States'', ''USA'']\<rparr>)"
  have u: "toUpperCase ''Usa'' = ''USA''" by code_simp
  have 1: "getFeatISO3 ?f = Some ''Usa''" by (simp add: getFeatISO3_def props_def)
  have 2: "getFeatISO3 ?f' = Some (toUpperCase ''Usa'')"
    by (simp add: getFeatISO3_def props_def u)
  have 3: "?kg \<in> set GROUPS" by (simp add: GROUPS_def)
  have 4: "toUpperCase ''Usa'' \<in> set (iso3 (snd ?kg))" by (simp add: u)
  from groupId_iso_case_insensitive [OF 1 2 3 4] show ?thesis by simp
qed

section \<open>Properties of the statistics label\<close>

lemma override_eq:
  "override param dflt =
     (case param of
        None \<Rightarrow> dflt
      | Some v \<Rightarrow> if v = [] then dflt else (case parseInt10 v of None \<Rightarrow> 0 | Some n \<Rightarrow> n))"
  by (simp add: override_def split: option.splits)

lemma COUNTRY_STATS_key: "\<exists>st. map_of COUNTRY_STATS (key_string g) = Some st"
  by (cases g) (simp_all add: COUNTRY_STATS_def)

text \<open>
  Claim C8, as amended: for every selected group, a parameter \<open>offices\<close> or \<open>employees\<close>
  that is not the empty string and in which \<open>parseInt\<close> finds no integer puts \<open>0\<close> on
  display, and no error is raised; a parameter that is absent or the empty string leaves
  the default of the group on display; any other parameter puts the integer that
  \<open>parseInt\<close> reads in front of it on display.
\<close>

theorem labelInfo_override:
  assumes "groupId f = Some g"
  shows "\<exists>l st. labelInfo (Some f) urlParams = Some l
           \<and> name l = canonicalName g
           \<and> map_of COUNTRY_STATS (key_string g) = Some st
           \<and> offices_text l = toLocaleString
                (case urlParams ''offices'' of
                   None \<Rightarrow> offices st
                 | Some v \<Rightarrow> if v = [] then offices st
                             else (case parseInt10 v of None \<Rightarrow> 0 | Some n \<Rightarrow> n))
           \<and> employees_text l = toLocaleString
                (case urlParams ''employees'' of
                   None \<Rightarrow> employees st
                 | Some v \<Rightarrow> if v = [] then employees st
                             else (case parseInt10 v of None \<Rightarrow> 0 | Some n \<Rightarrow> n))"
proof -
  obtain st where st: "map_of COUNTRY_STATS (key_string g) = Some st"
    using COUNTRY_STATS_key by blast
  show ?thesis
    by (simp add: labelInfo_def assms st Let_def override_eq)
qed

theorem labelInfo_override_witness:
  "labelInfo (Some \<lparr>geometry = Polygon [], properties = Some (map_of [(''ISO_A3'', ''CAN'')])\<rparr>)
     (map_of [(''employees'', ''many'')])
   = Some \<lparr>name = ''Canada'', offices_text = ''10'', employees_text = ''0''\<rparr>"
proof -
  let ?f = "\<lparr>geometry = Polygon [], properties = Some (map_of [(''ISO_A3'', ''CAN'')])\<rparr>"
  have g: "groupId ?f = Some CAN" by code_simp
  have p: "parseInt10 ''many'' = None" by code_simp
  have t: "toLocaleString 10 = ''10''" "toLocaleString 0 = ''0''" by code_simp+
  from labelInfo_override [OF g, of "map_of [(''employees'', ''many'')]"]
  obtain l where l: "labelInfo (Some ?f) (map_of [(''employees'', ''many'')]) = Some l"
    and n: "name l = ''Canada''"
    and o: "offices_text l = ''10''" and e: "employees_text l = ''0''"
    by (auto simp: COUNTRY_STATS_def p t)
  then show ?thesis by (cases l) simp
qed

theorem labelInfo_empty_param_counterexample:
  "parseInt10 [] = None
   \<and> labelInfo (Some \<lparr>geometry = Polygon [], properties = Some (map_of [(''ISO_A3'', ''CAN'')])\<rparr>)
       (map_of [(''offices'', [])])
     = Some \<lparr>name = ''Canada'', offices_text = ''10'', employees_text = ''1,123''\<rparr>"
  by code_simp

end
